theory Spec2Isabelle
  imports Main "HOL-Library.Word"
begin

unbundle bit_operations_syntax

section \<open>Data model\<close>

text \<open>
  The codec of \<^verbatim>\<open>src/services/steganographyService.ts\<close> works on three kinds of data.
  \<^item> The pixel buffer \<^verbatim>\<open>imageData.data\<close> is a \<^verbatim>\<open>Uint8ClampedArray\<close>: a list of 8-bit words.
    The canvas delivers four bytes per pixel (R, G, B, A), so its length is a multiple of 4.
  \<^item> A JavaScript string is a sequence of 16-bit UTF-16 code units.
  \<^item> A binary string of the source is a JavaScript string over the two characters
    \<^verbatim>\<open>'0'\<close> and \<^verbatim>\<open>'1'\<close>; it is modelled as the list of its bits,
    \<open>True\<close> standing for \<^verbatim>\<open>'1'\<close>.
  Numbers of the source that count bits or index the buffer are naturals; bytes of a
  \<^verbatim>\<open>Uint8Array\<close> are naturals below 256.
\<close>

type_synonym u8 = "8 word"
type_synonym jsstring = "16 word list"
type_synonym bits = "bool list"

text \<open>
  The source rejects (or throws) with an \<^verbatim>\<open>Error\<close> that carries a message only. Each
  rejection site of the codec is one constructor, named after the error taxonomy of the
  specification:
  \<^item> \<open>Overflow\<close>: \<^verbatim>\<open>Number ... is too large to fit in ... bits.\<close> (\<^verbatim>\<open>numberToBinary\<close>);
  \<^item> \<open>CapacityExceeded available required\<close>: \<^verbatim>\<open>Text is too long to embed in this image.\<close>;
  \<^item> \<open>InternalInconsistency\<close>: \<^verbatim>\<open>Encoding error: Ran out of image data space unexpectedly.\<close>;
  \<^item> \<open>BufferTooSmall\<close>: \<^verbatim>\<open>Image is too small to contain any message\<close>;
  \<^item> \<open>RanOutReadingLength\<close>, \<open>RanOutReadingMessage\<close>: \<^verbatim>\<open>Decoding error: Ran out of image data\<close>
    in the first and in the second read loop;
  \<^item> \<open>DeclaredLengthExceedsCapacity declared remaining\<close>: \<^verbatim>\<open>Declared message length ... exceeds available space\<close>;
  \<^item> \<open>InvalidEncoding\<close>: \<^verbatim>\<open>Failed to decode message: Invalid UTF-8 sequence detected.\<close>;
  \<^item> \<open>MalformedPayload\<close>: the condition the specification asks for when the number of
    extracted bits is not a multiple of 8. No path of the source produces it;
  \<^item> \<open>RangeError\<close>: the engine's \<^verbatim>\<open>RangeError: Invalid string length\<close>, thrown by a string
    concatenation whose result is longer than the engine allows.
\<close>

datatype error =
    Overflow nat nat
  | CapacityExceeded nat nat
  | InternalInconsistency
  | BufferTooSmall
  | RanOutReadingLength
  | RanOutReadingMessage
  | DeclaredLengthExceedsCapacity nat nat
  | InvalidEncoding
  | MalformedPayload
  | RangeError

section \<open>Binary strings\<close>

text \<open>
  \<^verbatim>\<open>n.toString(2)\<close>: the binary digits of a non-negative integer, most significant first,
  without leading zeros (\<^verbatim>\<open>"0"\<close> for 0).
\<close>

fun toString2 :: "nat \<Rightarrow> bits" where
  "toString2 n = (if n < 2 then [n = 1] else toString2 (n div 2) @ [n mod 2 = 1])"

declare toString2.simps [simp del]

text \<open>\<^verbatim>\<open>s.padStart(k, '0')\<close>.\<close>

definition padStart :: "nat \<Rightarrow> bits \<Rightarrow> bits" where
  "padStart k s = replicate (k - length s) False @ s"

text \<open>\<^verbatim>\<open>parseInt(s, 2)\<close> on a non-empty binary string.\<close>

definition parseInt2 :: "bits \<Rightarrow> nat" where
  "parseInt2 s = foldl (\<lambda>acc b. 2 * acc + (if b then 1 else 0)) 0 s"

text \<open>
  \<^verbatim>\<open>numberToBinary(num, bits)\<close>: throws when the binary representation is longer than
  \<open>bits\<close>, pads with zeros on the left otherwise.
\<close>

definition numberToBinary :: "nat \<Rightarrow> nat \<Rightarrow> error + bits" where
  "numberToBinary num bits =
     (let binary = toString2 num in
      if length binary > bits then Inl (Overflow num bits)
      else Inr (replicate (bits - length binary) False @ binary))"

section \<open>The platform's UTF-8 encoder and decoder\<close>

text \<open>
  \<^verbatim>\<open>TextEncoder\<close> and \<^verbatim>\<open>TextDecoder\<close> belong to the browser, not to the repository. They
  are modelled after the WHATWG Encoding Standard, as far as the codec can observe them.

  \<^verbatim>\<open>new TextEncoder().encode(text)\<close> first reads the UTF-16 code units as Unicode scalar
  values: a lead surrogate followed by a trail surrogate is one supplementary code point,
  any other surrogate is replaced by U+FFFD. Then each scalar value is written in UTF-8.
\<close>

definition isLead :: "16 word \<Rightarrow> bool" where
  "isLead c = (0xD800 \<le> unat c \<and> unat c \<le> 0xDBFF)"

definition isTrail :: "16 word \<Rightarrow> bool" where
  "isTrail c = (0xDC00 \<le> unat c \<and> unat c \<le> 0xDFFF)"

fun toScalarValues :: "jsstring \<Rightarrow> nat list" where
  "toScalarValues [] = []"
| "toScalarValues [c] = [if isLead c \<or> isTrail c then 0xFFFD else unat c]"
| "toScalarValues (c # d # cs) =
     (if isLead c \<and> isTrail d
      then (0x10000 + (unat c - 0xD800) * 0x400 + (unat d - 0xDC00)) # toScalarValues cs
      else (if isLead c \<or> isTrail c then 0xFFFD else unat c) # toScalarValues (d # cs))"

definition utf8EncodeCodePoint :: "nat \<Rightarrow> nat list" where
  "utf8EncodeCodePoint cp =
     (if cp < 0x80 then [cp]
      else if cp < 0x800 then [0xC0 + cp div 0x40, 0x80 + cp mod 0x40]
      else if cp < 0x10000 then
        [0xE0 + cp div 0x1000, 0x80 + cp div 0x40 mod 0x40, 0x80 + cp mod 0x40]
      else
        [0xF0 + cp div 0x40000, 0x80 + cp div 0x1000 mod 0x40,
         0x80 + cp div 0x40 mod 0x40, 0x80 + cp mod 0x40])"

definition textEncode :: "jsstring \<Rightarrow> nat list" where
  "textEncode text = concat (map utf8EncodeCodePoint (toScalarValues text))"

text \<open>
  \<^verbatim>\<open>new TextDecoder('utf-8', { fatal: true }).decode(bytes)\<close>: the UTF-8 decoder of the
  standard, where every error throws (\<open>None\<close>): a byte that cannot start a sequence
  (0x80..0xC1, 0xF5..0xFF), a continuation byte outside the bounds that exclude overlong
  forms, surrogates and code points beyond U+10FFFF, and a sequence cut off by the end of
  the input. The option \<^verbatim>\<open>ignoreBOM\<close> is not set, so one leading U+FEFF is removed from the
  output. The code points are returned as UTF-16 code units.
\<close>

definition inRange :: "nat \<Rightarrow> nat \<Rightarrow> nat \<Rightarrow> bool" where
  "inRange lo hi b = (lo \<le> b \<and> b \<le> hi)"

fun utf8Decode :: "nat list \<Rightarrow> nat list option" where
  "utf8Decode [] = Some []"
| "utf8Decode (b # bs) =
     (if b \<le> 0x7F then map_option ((#) b) (utf8Decode bs)
      else if inRange 0xC2 0xDF b then
        (case bs of
           c1 # r \<Rightarrow>
             if inRange 0x80 0xBF c1
             then map_option ((#) ((b - 0xC0) * 0x40 + (c1 - 0x80))) (utf8Decode r)
             else None
         | _ \<Rightarrow> None)
      else if inRange 0xE0 0xEF b then
        (case bs of
           c1 # c2 # r \<Rightarrow>
             if inRange (if b = 0xE0 then 0xA0 else 0x80) (if b = 0xED then 0x9F else 0xBF) c1
                \<and> inRange 0x80 0xBF c2
             then map_option
                    ((#) ((b - 0xE0) * 0x1000 + (c1 - 0x80) * 0x40 + (c2 - 0x80)))
                    (utf8Decode r)
             else None
         | _ \<Rightarrow> None)
      else if inRange 0xF0 0xF4 b then
        (case bs of
           c1 # c2 # c3 # r \<Rightarrow>
             if inRange (if b = 0xF0 then 0x90 else 0x80) (if b = 0xF4 then 0x8F else 0xBF) c1
                \<and> inRange 0x80 0xBF c2 \<and> inRange 0x80 0xBF c3
             then map_option
                    ((#) ((b - 0xF0) * 0x40000 + (c1 - 0x80) * 0x1000
                          + (c2 - 0x80) * 0x40 + (c3 - 0x80)))
                    (utf8Decode r)
             else None
         | _ \<Rightarrow> None)
      else None)"

definition stripBOM :: "nat list \<Rightarrow> nat list" where
  "stripBOM cps = (case cps of cp # r \<Rightarrow> if cp = 0xFEFF then r else cps | [] \<Rightarrow> [])"

definition codeUnits :: "nat \<Rightarrow> jsstring" where
  "codeUnits cp =
     (if cp < 0x10000 then [of_nat cp]
      else [of_nat (0xD800 + (cp - 0x10000) div 0x400),
            of_nat (0xDC00 + (cp - 0x10000) mod 0x400)])"

definition textDecodeFatal :: "nat list \<Rightarrow> jsstring option" where
  "textDecodeFatal bytes =
     map_option (\<lambda>cps. concat (map codeUnits (stripBOM cps))) (utf8Decode bytes)"

section \<open>The helpers of the codec\<close>

text \<open>
  \<^verbatim>\<open>textToUTF8Binary\<close>: the \<^verbatim>\<open>forEach\<close> appends the eight binary digits of each byte to
  \<^verbatim>\<open>binaryString\<close>. This is the function on strings of any length, as the language
  defines it.
\<close>

definition textToUTF8Binary :: "jsstring \<Rightarrow> bits" where
  "textToUTF8Binary text =
     foldl (\<lambda>binaryString byte. binaryString @ padStart 8 (toString2 byte)) []
       (textEncode text)"

text \<open>
  Every engine bounds the length of a string (\<open>2 ^ 29 - 24\<close> code units in V8, below
  \<open>2 ^ 32\<close> in all of them), and a concatenation whose result would be longer throws
  \<^verbatim>\<open>RangeError\<close>. The bound is a parameter, \<open>maxStringLength\<close>. In \<^verbatim>\<open>textToUTF8Binary\<close> the
  concatenation is the \<^verbatim>\<open>+=\<close> of the \<^verbatim>\<open>forEach\<close>; once it has thrown, nothing more is
  appended. The strings of 8 and 32 digits that \<^verbatim>\<open>padStart\<close> and \<^verbatim>\<open>numberToBinary\<close> build are
  far below any engine's bound.
\<close>

definition concatLimited :: "nat \<Rightarrow> bits \<Rightarrow> bits \<Rightarrow> error + bits" where
  "concatLimited maxStringLength a b =
     (if length a + length b > maxStringLength then Inl RangeError else Inr (a @ b))"

definition textToUTF8Binary_limited :: "nat \<Rightarrow> jsstring \<Rightarrow> error + bits" where
  "textToUTF8Binary_limited maxStringLength text =
     foldl (\<lambda>binaryString byte.
              case binaryString of
                Inl e \<Rightarrow> Inl e
              | Inr s \<Rightarrow> concatLimited maxStringLength s (padStart 8 (toString2 byte)))
       (Inr []) (textEncode text)"

text \<open>\<^verbatim>\<open>s.substring(a, b)\<close> for \<open>a \<le> b \<le> length s\<close>.\<close>

definition substring :: "'a list \<Rightarrow> nat \<Rightarrow> nat \<Rightarrow> 'a list" where
  "substring s a b = take (b - a) (drop a s)"

text \<open>
  The \<^verbatim>\<open>for\<close> loop of \<^verbatim>\<open>binaryToUTF8Text\<close>: a chunk of eight digits is parsed and pushed, a
  shorter last chunk is only logged with \<^verbatim>\<open>console.warn\<close> and dropped. The console is not
  part of the model.
\<close>

function binaryToUTF8Text_loop :: "bits \<Rightarrow> nat \<Rightarrow> nat list \<Rightarrow> nat list" where
  "binaryToUTF8Text_loop binaryString i bytes =
     (if i < length binaryString then
        let byteString = substring binaryString i (min (i + 8) (length binaryString))
        in if length byteString = 8
           then binaryToUTF8Text_loop binaryString (i + 8) (bytes @ [parseInt2 byteString])
           else binaryToUTF8Text_loop binaryString (i + 8) bytes
      else bytes)"
  by pat_completeness auto
termination
  by (relation "measure (\<lambda>(binaryString, i, bytes). length binaryString - i)") auto

declare binaryToUTF8Text_loop.simps [simp del]

text \<open>
  \<^verbatim>\<open>binaryToUTF8Text\<close>: \<^verbatim>\<open>new Uint8Array(bytes)\<close> stores each number modulo 256; a failure of
  the fatal decoder is rethrown as the invalid-UTF-8 error.
\<close>

definition binaryToUTF8Text :: "bits \<Rightarrow> error + jsstring" where
  "binaryToUTF8Text binaryString =
     (let bytes = binaryToUTF8Text_loop binaryString 0 [];
          uint8Array = map (\<lambda>b. b mod 256) bytes
      in case textDecodeFatal uint8Array of
           Some decoded \<Rightarrow> Inr decoded
         | None \<Rightarrow> Inl InvalidEncoding)"

section \<open>Embedding\<close>

text \<open>
  \<^verbatim>\<open>Math.floor((data.length / 4) * 3)\<close>. The division by 4 and the product are exact in
  double precision for every length a typed array can have, so this is the integer
  quotient of \<open>3 * length\<close> by 4.
\<close>

definition maxEmbeddableBits :: "u8 list \<Rightarrow> nat" where
  "maxEmbeddableBits data = length data * 3 div 4"

text \<open>
  The \<^verbatim>\<open>while\<close> loop of \<^verbatim>\<open>encodeTextInImage\<close>. The buffer is mutated in place, so the loop
  returns the buffer as it leaves it together with the outcome: \<open>None\<close> when the loop
  ends normally, \<open>Some e\<close> when it rejects.
\<close>

function encodeTextInImage_loop ::
  "u8 list \<Rightarrow> bits \<Rightarrow> nat \<Rightarrow> nat \<Rightarrow> error option \<times> u8 list" where
  "encodeTextInImage_loop data fullBinaryPayload dataIndex payloadIndex =
     (if payloadIndex < length fullBinaryPayload then
        if dataIndex \<ge> length data then (Some InternalInconsistency, data)
        else if dataIndex mod 4 \<noteq> 3 then
          let bitToEmbed = (if fullBinaryPayload ! payloadIndex then 1 else 0)
          in encodeTextInImage_loop
               (data[dataIndex := (data ! dataIndex AND 0xFE) OR bitToEmbed])
               fullBinaryPayload (dataIndex + 1) (payloadIndex + 1)
        else encodeTextInImage_loop data fullBinaryPayload (dataIndex + 1) payloadIndex
      else (None, data))"
  by pat_completeness auto
termination
  by (relation "measure (\<lambda>(data, fullBinaryPayload, dataIndex, payloadIndex).
                           length data - dataIndex)") auto

declare encodeTextInImage_loop.simps [simp del]

text \<open>
  The codec part of \<^verbatim>\<open>encodeTextInImage\<close>, from the pixel buffer obtained from the canvas
  to the end of the loop. The exception of \<^verbatim>\<open>numberToBinary\<close> escapes before the buffer is
  touched. Strings are of any length here; the bound of the engine is added in
  \<open>encodeTextInImage_limited\<close> below.
\<close>

definition encodeTextInImage :: "u8 list \<Rightarrow> jsstring \<Rightarrow> error option \<times> u8 list" where
  "encodeTextInImage data text =
     (let secretMessageBinary = textToUTF8Binary text in
      case numberToBinary (length secretMessageBinary) 32 of
        Inl e \<Rightarrow> (Some e, data)
      | Inr messageLengthBinary \<Rightarrow>
          let fullBinaryPayload = messageLengthBinary @ secretMessageBinary;
              maxBits = maxEmbeddableBits data
          in if length fullBinaryPayload > maxBits
             then (Some (CapacityExceeded maxBits (length fullBinaryPayload)), data)
             else encodeTextInImage_loop data fullBinaryPayload 0 0)"

text \<open>
  The same part of \<^verbatim>\<open>encodeTextInImage\<close> in an engine whose strings have at most
  \<open>maxStringLength\<close> code units. Two concatenations can throw before the capacity is
  looked at: the one inside \<^verbatim>\<open>textToUTF8Binary\<close> and
  \<^verbatim>\<open>messageLengthBinary + secretMessageBinary\<close>. Below the bound this is \<open>encodeTextInImage\<close>.
\<close>

definition encodeTextInImage_limited ::
  "nat \<Rightarrow> u8 list \<Rightarrow> jsstring \<Rightarrow> error option \<times> u8 list" where
  "encodeTextInImage_limited maxStringLength data text =
     (case textToUTF8Binary_limited maxStringLength text of
        Inl e \<Rightarrow> (Some e, data)
      | Inr secretMessageBinary \<Rightarrow>
          (case numberToBinary (length secretMessageBinary) 32 of
             Inl e \<Rightarrow> (Some e, data)
           | Inr messageLengthBinary \<Rightarrow>
               (case concatLimited maxStringLength messageLengthBinary secretMessageBinary of
                  Inl e \<Rightarrow> (Some e, data)
                | Inr fullBinaryPayload \<Rightarrow>
                    let maxBits = maxEmbeddableBits data
                    in if length fullBinaryPayload > maxBits
                       then (Some (CapacityExceeded maxBits (length fullBinaryPayload)), data)
                       else encodeTextInImage_loop data fullBinaryPayload 0 0)))"

section \<open>Extraction\<close>

text \<open>
  The two \<^verbatim>\<open>while\<close> loops of \<^verbatim>\<open>decodeTextFromImage\<close> are the same loop: they read the
  least-significant bit of every non-alpha byte from \<open>dataIndex\<close> on until \<open>count\<close> bits
  are read, and differ in the error they reject with. The loop returns the digits read
  and the index it stops at, where the second loop goes on.
\<close>

function decodeTextFromImage_loop ::
  "error \<Rightarrow> u8 list \<Rightarrow> nat \<Rightarrow> nat \<Rightarrow> nat \<Rightarrow> bits \<Rightarrow> error + bits \<times> nat" where
  "decodeTextFromImage_loop e data count dataIndex bitsRead extracted =
     (if bitsRead < count then
        if dataIndex \<ge> length data then Inl e
        else if dataIndex mod 4 \<noteq> 3 then
          decodeTextFromImage_loop e data count (dataIndex + 1) (bitsRead + 1)
            (extracted @ [data ! dataIndex AND 1 = 1])
        else decodeTextFromImage_loop e data count (dataIndex + 1) bitsRead extracted
      else Inr (extracted, dataIndex))"
  by pat_completeness auto
termination
  by (relation "measure (\<lambda>(e, data, count, dataIndex, bitsRead, extracted).
                           length data - dataIndex)") auto

declare decodeTextFromImage_loop.simps [simp del]

text \<open>
  The codec part of \<^verbatim>\<open>decodeTextFromImage\<close>. The test \<^verbatim>\<open>messageLength < 0\<close> of the source
  cannot hold for the value of \<^verbatim>\<open>parseInt\<close> on binary digits and has no branch here.
\<close>

definition decodeTextFromImage :: "u8 list \<Rightarrow> error + jsstring" where
  "decodeTextFromImage data =
     (let totalAvailableBits = maxEmbeddableBits data in
      if totalAvailableBits < 32 then Inl BufferTooSmall
      else
        case decodeTextFromImage_loop RanOutReadingLength data 32 0 0 [] of
          Inl e \<Rightarrow> Inl e
        | Inr (extractedLengthBinary, dataIndex) \<Rightarrow>
            let messageLength = parseInt2 extractedLengthBinary in
            if messageLength = 0 then Inr []
            else
              let remainingBitsInImage = totalAvailableBits - 32 in
              if messageLength > remainingBitsInImage
              then Inl (DeclaredLengthExceedsCapacity messageLength remainingBitsInImage)
              else
                (case decodeTextFromImage_loop RanOutReadingMessage data messageLength
                        dataIndex 0 [] of
                   Inl e \<Rightarrow> Inl e
                 | Inr (extractedMessageBinary, dataIndex') \<Rightarrow>
                     binaryToUTF8Text extractedMessageBinary))"

section \<open>Notions of the specification\<close>

text \<open>
  The capacity of the specification, \<open>floor (length / 4) * 3\<close>; the index of the \<open>k\<close>-th
  eligible (non-alpha) byte; and the number of eligible bytes below an index.
\<close>

definition capacity :: "u8 list \<Rightarrow> nat" where
  "capacity data = length data div 4 * 3"

definition slot :: "nat \<Rightarrow> nat" where
  "slot k = 4 * (k div 3) + k mod 3"

definition eligibleBelow :: "nat \<Rightarrow> nat" where
  "eligibleBelow i = i - i div 4"

text \<open>
  The payload frame: the length of the message bits as 32 binary digits, most significant
  first, followed by the message bits. It is the value of \<^verbatim>\<open>fullBinaryPayload\<close> when
  \<^verbatim>\<open>numberToBinary\<close> does not throw.
\<close>

definition payloadFrame :: "jsstring \<Rightarrow> bits" where
  "payloadFrame text =
     padStart 32 (toString2 (length (textToUTF8Binary text))) @ textToUTF8Binary text"

text \<open>
  A string that \<^verbatim>\<open>TextEncoder\<close> encodes without replacement: every lead surrogate is
  followed by a trail surrogate and no trail surrogate stands alone.
\<close>

fun wellFormed :: "jsstring \<Rightarrow> bool" where
  "wellFormed [] = True"
| "wellFormed [c] = (\<not> isLead c \<and> \<not> isTrail c)"
| "wellFormed (c # d # cs) =
     (if isLead c then isTrail d \<and> wellFormed cs
      else \<not> isTrail c \<and> wellFormed (d # cs))"

definition startsWithBOM :: "jsstring \<Rightarrow> bool" where
  "startsWithBOM text = (case text of c # cs \<Rightarrow> c = 0xFEFF | [] \<Rightarrow> False)"

text \<open>Unicode scalar values: code points up to U+10FFFF that are not surrogates.\<close>

definition isScalar :: "nat \<Rightarrow> bool" where
  "isScalar cp = (cp < 0x110000 \<and> (cp < 0xD800 \<or> 0xDFFF < cp))"

section \<open>Binary digits\<close>

lemma parseInt2_snoc: "parseInt2 (s @ [b]) = 2 * parseInt2 s + (if b then 1 else 0)"
  by (simp add: parseInt2_def)

lemma parseInt2_zeros: "parseInt2 (replicate k False @ s) = parseInt2 s"
proof -
  have "foldl (\<lambda>acc b. 2 * acc + (if b then 1 else 0)) (0::nat) (replicate k False) = 0"
    by (induction k) simp_all
  then show ?thesis by (simp add: parseInt2_def)
qed

lemma parseInt2_toString2: "parseInt2 (toString2 n) = n"
proof (induction n rule: toString2.induct)
  case (1 n)
  show ?case
  proof (cases "n < 2")
    case True
    then have "n = 0 \<or> n = 1" by auto
    then show ?thesis
      by (subst toString2.simps) (auto simp: parseInt2_def)
  next
    case False
    have "2 * (n div 2) + (if n mod 2 = 1 then 1 else 0) = n" by presburger
    with False 1 show ?thesis
      by (subst toString2.simps) (simp add: parseInt2_snoc)
  qed
qed

lemma toString2_bounds:
  "0 < length (toString2 n) \<and> n < 2 ^ length (toString2 n)
   \<and> (0 < n \<longrightarrow> 2 ^ (length (toString2 n) - 1) \<le> n)"
proof (induction n rule: toString2.induct)
  case (1 n)
  show ?case
  proof (cases "n < 2")
    case True
    then show ?thesis by (subst (1 2 3) toString2.simps) auto
  next
    case False
    then have pos: "0 < n div 2" by simp
    have eq: "toString2 n = toString2 (n div 2) @ [n mod 2 = 1]"
      using False by (subst toString2.simps) simp
    from "1.IH" [OF False] pos
    have a: "0 < length (toString2 (n div 2))"
      and b: "n div 2 < 2 ^ length (toString2 (n div 2))"
      and c: "2 ^ (length (toString2 (n div 2)) - 1) \<le> n div 2" by simp_all
    have "n < 2 * 2 ^ length (toString2 (n div 2))" using b by linarith
    moreover have "2 * 2 ^ (length (toString2 (n div 2)) - 1) \<le> n" using c by linarith
    moreover have "2 * (2::nat) ^ (length (toString2 (n div 2)) - 1) = 2 ^ length (toString2 (n div 2))"
      using a by (cases "length (toString2 (n div 2))") simp_all
    ultimately show ?thesis unfolding eq by simp
  qed
qed

lemma length_toString2_le: "0 < k \<Longrightarrow> length (toString2 n) \<le> k \<longleftrightarrow> n < 2 ^ k"
proof
  assume "length (toString2 n) \<le> k"
  then have "(2::nat) ^ length (toString2 n) \<le> 2 ^ k" by simp
  with toString2_bounds [of n] show "n < 2 ^ k" by linarith
next
  assume k: "0 < k" and n: "n < 2 ^ k"
  show "length (toString2 n) \<le> k"
  proof (rule ccontr)
    assume "\<not> length (toString2 n) \<le> k"
    then have "k \<le> length (toString2 n) - 1" by simp
    then have "(2::nat) ^ k \<le> 2 ^ (length (toString2 n) - 1)"
      by (rule power_increasing) simp
    moreover have "0 < n"
      using \<open>\<not> length (toString2 n) \<le> k\<close> k by (cases "n = 0") (simp_all add: toString2.simps)
    moreover have "2 ^ (length (toString2 n) - 1) \<le> n"
      using toString2_bounds [of n] \<open>0 < n\<close> by blast
    ultimately show False using n by linarith
  qed
qed

lemma numberToBinary_eq:
  "0 < k \<Longrightarrow> numberToBinary n k =
     (if n < 2 ^ k then Inr (padStart k (toString2 n)) else Inl (Overflow n k))"
  using length_toString2_le [of k n]
  by (auto simp: numberToBinary_def padStart_def Let_def)

lemma length_padStart_toString2: "0 < k \<Longrightarrow> n < 2 ^ k \<Longrightarrow> length (padStart k (toString2 n)) = k"
  using length_toString2_le [of k n] by (simp add: padStart_def)

lemma parseInt2_padStart: "parseInt2 (padStart k (toString2 n)) = n"
  by (simp add: padStart_def parseInt2_zeros parseInt2_toString2)

section \<open>Index arithmetic of the channel walk\<close>

lemma slot_add: "r < 3 \<Longrightarrow> slot (3 * q + r) = 4 * q + r"
  unfolding slot_def by simp

lemma eligibleBelow_add: "r < 4 \<Longrightarrow> eligibleBelow (4 * q + r) = 3 * q + r"
  unfolding eligibleBelow_def by simp

lemma slot_cases:
  obtains q r where "k = 3 * q + r" "r < 3" "slot k = 4 * q + r"
proof -
  have "k = 3 * (k div 3) + k mod 3" "k mod 3 < 3" by simp_all
  then show ?thesis using that slot_add by metis
qed

lemma index_cases:
  obtains q r where "i = 4 * q + r" "r < 4" "eligibleBelow i = 3 * q + r"
proof -
  have "i = 4 * (i div 4) + i mod 4" "i mod 4 < 4" by simp_all
  then show ?thesis using that eligibleBelow_add by metis
qed

lemma slot_not_alpha: "slot k mod 4 \<noteq> 3"
  by (rule slot_cases [of k]) simp

lemma eligibleBelow_slot: "eligibleBelow (slot k) = k"
  by (rule slot_cases [of k]) (simp add: eligibleBelow_add)

lemma slot_eligibleBelow: "i mod 4 \<noteq> 3 \<Longrightarrow> slot (eligibleBelow i) = i"
proof (rule index_cases [of i])
  fix q r assume *: "i = 4 * q + r" "r < 4" "eligibleBelow i = 3 * q + r" and "i mod 4 \<noteq> 3"
  then have "r < 3" by (cases "r = 3") simp_all
  then show ?thesis using * by (simp add: slot_add)
qed

lemma eligibleBelow_Suc:
  "eligibleBelow (Suc i) = (if i mod 4 \<noteq> 3 then Suc (eligibleBelow i) else eligibleBelow i)"
proof (rule index_cases [of i])
  fix q r assume *: "i = 4 * q + r" "r < 4" "eligibleBelow i = 3 * q + r"
  show ?thesis
  proof (cases "r = 3")
    case True
    then have "Suc i = 4 * (Suc q) + 0" using * by simp
    then have "eligibleBelow (Suc i) = 3 * Suc q + 0" by (simp only: eligibleBelow_add)
    then show ?thesis using * True by simp
  next
    case False
    then have "Suc i = 4 * q + Suc r" "Suc r < 4" using * by simp_all
    then have "eligibleBelow (Suc i) = 3 * q + Suc r" by (simp only: eligibleBelow_add)
    then show ?thesis using * False by simp
  qed
qed

lemma eligibleBelow_mono: "i \<le> j \<Longrightarrow> eligibleBelow i \<le> eligibleBelow j"
  by (induction j) (auto simp: le_Suc_eq eligibleBelow_Suc)

lemma maxEmbeddableBits_capacity:
  "length data mod 4 = 0 \<Longrightarrow> maxEmbeddableBits data = capacity data"
  unfolding maxEmbeddableBits_def capacity_def by (auto simp: mod_eq_0_iff_dvd elim!: dvdE)

lemma maxEmbeddableBits_le_eligible:
  "maxEmbeddableBits data \<le> eligibleBelow (length data)"
  unfolding maxEmbeddableBits_def eligibleBelow_def by linarith


lemma encode_loop_length:
  "length (snd (encodeTextInImage_loop data p di pi)) = length data"
proof (induction data p di pi rule: encodeTextInImage_loop.induct)
  case (1 data p di pi)
  then show ?case
    by (subst encodeTextInImage_loop.simps) (simp add: Let_def)
qed

lemma encode_loop_ok:
  "pi = eligibleBelow di \<Longrightarrow> length p \<le> eligibleBelow (length data)
   \<Longrightarrow> fst (encodeTextInImage_loop data p di pi) = None"
proof (induction data p di pi rule: encodeTextInImage_loop.induct)
  case (1 data p di pi)
  show ?case
  proof (cases "pi < length p")
    case False
    then show ?thesis by (subst encodeTextInImage_loop.simps) simp
  next
    case True
    have inside: "di < length data"
    proof (rule ccontr)
      assume "\<not> di < length data"
      then have "eligibleBelow (length data) \<le> eligibleBelow di"
        by (simp add: eligibleBelow_mono)
      with True "1.prems" show False by simp
    qed
    show ?thesis
    proof (cases "di mod 4 \<noteq> 3")
      case True
      with \<open>pi < length p\<close> inside "1.prems" "1.IH"(1) show ?thesis
        by (subst encodeTextInImage_loop.simps) (simp add: Let_def eligibleBelow_Suc)
    next
      case False
      with \<open>pi < length p\<close> inside "1.prems" "1.IH"(2) show ?thesis
        by (subst encodeTextInImage_loop.simps) (simp add: Let_def eligibleBelow_Suc)
    qed
  qed
qed

lemma encode_loop_nth:
  "pi = eligibleBelow di \<Longrightarrow> i < length data \<Longrightarrow>
   snd (encodeTextInImage_loop data p di pi) ! i =
     (if di \<le> i \<and> i mod 4 \<noteq> 3 \<and> eligibleBelow i < length p
      then (data ! i AND 0xFE) OR (if p ! eligibleBelow i then 1 else 0)
      else data ! i)"
proof (induction data p di pi rule: encodeTextInImage_loop.induct)
  case (1 data p di pi)
  show ?case
  proof (cases "pi < length p")
    case False
    have "di \<le> i \<Longrightarrow> \<not> eligibleBelow i < length p"
      using False "1.prems"(1) eligibleBelow_mono [of di i] by simp
    with False show ?thesis by (subst encodeTextInImage_loop.simps) auto
  next
    case inpayload: True
    show ?thesis
    proof (cases "di < length data")
      case False
      with inpayload "1.prems" show ?thesis
        by (subst encodeTextInImage_loop.simps) simp
    next
      case inside: True
      show ?thesis
      proof (cases "di mod 4 \<noteq> 3")
        case True
        have step: "encodeTextInImage_loop data p di pi =
            encodeTextInImage_loop
              (data[di := (data ! di AND 0xFE) OR (if p ! pi then 1 else 0)]) p (di + 1) (pi + 1)"
          using inpayload inside True
          by (subst encodeTextInImage_loop.simps) (simp add: Let_def)
        have "pi + 1 = eligibleBelow (di + 1)"
          using True "1.prems"(1) by (simp add: eligibleBelow_Suc)
        from "1.IH"(1) [OF inpayload _ True refl this] inside "1.prems"(2)
        show ?thesis
          unfolding step using "1.prems"(1) True inpayload
          by (cases "i = di") (auto simp: Suc_le_eq)
      next
        case False
        have step: "encodeTextInImage_loop data p di pi =
            encodeTextInImage_loop data p (di + 1) pi"
          using inpayload inside False
          by (subst encodeTextInImage_loop.simps) simp
        have "pi = eligibleBelow (di + 1)"
          using False "1.prems"(1) by (simp add: eligibleBelow_Suc)
        from "1.IH"(2) [OF inpayload _ _ this "1.prems"(2)] inside False
        show ?thesis
          unfolding step by (cases "i = di") (auto simp: Suc_le_eq)
      qed
    qed
  qed
qed


lemma decode_loop_closed:
  "eligibleBelow di = off + br \<Longrightarrow> br \<le> n \<Longrightarrow> off + n \<le> eligibleBelow (length data) \<Longrightarrow>
   decodeTextFromImage_loop e data n di br acc =
     Inr (acc @ map (\<lambda>k. data ! slot (off + k) AND 1 = 1) [br..<n],
          if br < n then Suc (slot (off + n - 1)) else di)"
proof (induction e data n di br acc rule: decodeTextFromImage_loop.induct)
  case (1 e data n di br acc)
  show ?case
  proof (cases "br < n")
    case False
    then show ?thesis by (subst decodeTextFromImage_loop.simps) simp
  next
    case more: True
    have inside: "di < length data"
    proof (rule ccontr)
      assume "\<not> di < length data"
      then have "eligibleBelow (length data) \<le> eligibleBelow di"
        by (simp add: eligibleBelow_mono)
      with more "1.prems" show False by simp
    qed
    show ?thesis
    proof (cases "di mod 4 \<noteq> 3")
      case True
      have step: "decodeTextFromImage_loop e data n di br acc =
          decodeTextFromImage_loop e data n (di + 1) (br + 1) (acc @ [data ! di AND 1 = 1])"
        using more inside True by (subst decodeTextFromImage_loop.simps) simp
      have here: "slot (off + br) = di"
        using slot_eligibleBelow [OF True] "1.prems"(1) by simp
      have "eligibleBelow (di + 1) = off + (br + 1)"
        using True "1.prems"(1) by (simp add: eligibleBelow_Suc)
      from "1.IH"(1) [OF more _ True this _ "1.prems"(3)] more inside
      show ?thesis
        unfolding step using here
        by (cases "Suc br = n") (auto simp: upt_conv_Cons)
    next
      case False
      have step: "decodeTextFromImage_loop e data n di br acc =
          decodeTextFromImage_loop e data n (di + 1) br acc"
        using more inside False by (subst decodeTextFromImage_loop.simps) simp
      have "eligibleBelow (di + 1) = off + br"
        using False "1.prems"(1) by (simp add: eligibleBelow_Suc)
      from "1.IH"(2) [OF more _ _ this "1.prems"(2,3)] more inside False
      show ?thesis
        unfolding step by simp
    qed
  qed
qed

lemma fe_not_one: "(0xFE::u8) = NOT 1"
  by simp

lemma and_one_is_lsb: "((y::u8) AND 1 = 1) = bit y 0"
  by (simp add: and_one_eq bit_0 odd_iff_mod_2_eq_one)

lemma lsb_put: "(((x::u8) AND 0xFE) OR (if b then 1 else 0)) AND 1 = 1 \<longleftrightarrow> b"
  unfolding and_one_is_lsb fe_not_one
  by (simp add: bit_or_iff bit_and_iff bit_not_iff bit_1_iff del: bit_0)

lemma high_put: "(((x::u8) AND 0xFE) OR (if b then 1 else 0)) AND 0xFE = x AND 0xFE"
  unfolding fe_not_one
  by (rule bit_eqI) (auto simp: bit_or_iff bit_and_iff bit_not_iff bit_1_iff)


lemma slot_less_length: "k < eligibleBelow n \<Longrightarrow> slot k < n"
proof (rule ccontr)
  assume "k < eligibleBelow n" and "\<not> slot k < n"
  then have "eligibleBelow n \<le> eligibleBelow (slot k)"
    by (simp add: eligibleBelow_mono)
  with \<open>k < eligibleBelow n\<close> show False by (simp add: eligibleBelow_slot)
qed

lemma decodeTextFromImage_closed:
  assumes "32 \<le> maxEmbeddableBits data"
  shows "decodeTextFromImage data =
    (let m = parseInt2 (map (\<lambda>k. data ! slot k AND 1 = 1) [0..<32]) in
     if m = 0 then Inr []
     else if m > maxEmbeddableBits data - 32
       then Inl (DeclaredLengthExceedsCapacity m (maxEmbeddableBits data - 32))
       else binaryToUTF8Text (map (\<lambda>k. data ! slot (32 + k) AND 1 = 1) [0..<m]))"
proof -
  have room: "32 \<le> eligibleBelow (length data)"
    using assms maxEmbeddableBits_le_eligible [of data] by simp
  have first: "decodeTextFromImage_loop RanOutReadingLength data 32 0 0 [] =
      Inr (map (\<lambda>k. data ! slot k AND 1 = 1) [0..<32], 42)"
    using decode_loop_closed [of 0 0 0 32 data RanOutReadingLength "[]"] room
    by (simp add: eligibleBelow_def slot_def)
  have second: "decodeTextFromImage_loop RanOutReadingMessage data m 42 0 [] =
      Inr (map (\<lambda>k. data ! slot (32 + k) AND 1 = 1) [0..<m],
           if 0 < m then Suc (slot (32 + m - 1)) else 42)"
    if "m \<le> maxEmbeddableBits data - 32" for m
  proof -
    have "32 + m \<le> eligibleBelow (length data)"
      using that assms maxEmbeddableBits_le_eligible [of data] by simp
    then show ?thesis
      using decode_loop_closed [of 42 32 0 m data RanOutReadingMessage "[]"]
      by (simp add: eligibleBelow_def)
  qed
  show ?thesis
    unfolding decodeTextFromImage_def using assms
    by (simp add: first Let_def second)
qed

section \<open>What embedding does to the buffer\<close>

lemma length_payloadFrame:
  "length (textToUTF8Binary text) < 2 ^ 32 \<Longrightarrow>
   length (payloadFrame text) = 32 + length (textToUTF8Binary text)"
  by (simp add: payloadFrame_def length_padStart_toString2)

lemma encodeTextInImage_eq:
  "encodeTextInImage data text =
     (let n = length (textToUTF8Binary text) in
      if 2 ^ 32 \<le> n then (Some (Overflow n 32), data)
      else if 32 + n > maxEmbeddableBits data
        then (Some (CapacityExceeded (maxEmbeddableBits data) (32 + n)), data)
        else encodeTextInImage_loop data (payloadFrame text) 0 0)"
  by (simp add: encodeTextInImage_def numberToBinary_eq Let_def payloadFrame_def
        length_padStart_toString2 not_le)

lemma encodeTextInImage_success:
  assumes "fst (encodeTextInImage data text) = None"
  shows "length (textToUTF8Binary text) < 2 ^ 32"
    and "length (payloadFrame text) \<le> maxEmbeddableBits data"
    and "encodeTextInImage data text = encodeTextInImage_loop data (payloadFrame text) 0 0"
  using assms
  by (auto simp: encodeTextInImage_eq Let_def length_payloadFrame split: if_splits)

lemma length_encodeTextInImage:
  "length (snd (encodeTextInImage data text)) = length data"
  by (simp add: encodeTextInImage_eq Let_def encode_loop_length)

lemma encodeTextInImage_outcome:
  "encodeTextInImage data text =
     (let n = length (textToUTF8Binary text) in
      if 2 ^ 32 \<le> n then (Some (Overflow n 32), data)
      else if 32 + n > maxEmbeddableBits data
        then (Some (CapacityExceeded (maxEmbeddableBits data) (32 + n)), data)
        else (None, snd (encodeTextInImage_loop data (payloadFrame text) 0 0)))"
proof -
  have "fst (encodeTextInImage_loop data (payloadFrame text) 0 0) = None"
    if "length (textToUTF8Binary text) < 2 ^ 32"
       "32 + length (textToUTF8Binary text) \<le> maxEmbeddableBits data"
  proof (rule encode_loop_ok)
    show "0 = eligibleBelow 0" by (simp add: eligibleBelow_def)
    show "length (payloadFrame text) \<le> eligibleBelow (length data)"
      using that maxEmbeddableBits_le_eligible [of data] by (simp add: length_payloadFrame)
  qed
  then show ?thesis
    by (simp add: encodeTextInImage_eq Let_def not_le not_less prod_eq_iff)
qed

lemma encodeTextInImage_failure:
  "fst (encodeTextInImage data text) \<noteq> None \<Longrightarrow> snd (encodeTextInImage data text) = data"
  by (simp add: encodeTextInImage_outcome Let_def split: if_splits)

lemma encodeTextInImage_nth:
  assumes "i < length data"
  shows "snd (encodeTextInImage data text) ! i =
     (if fst (encodeTextInImage data text) = None \<and> i mod 4 \<noteq> 3
         \<and> eligibleBelow i < length (payloadFrame text)
      then (data ! i AND 0xFE) OR (if payloadFrame text ! eligibleBelow i then 1 else 0)
      else data ! i)"
proof (cases "fst (encodeTextInImage data text) = None")
  case True
  show ?thesis
    using True assms encode_loop_nth [of 0 0 i data "payloadFrame text"]
    by (simp add: encodeTextInImage_success(3) [OF True] eligibleBelow_def)
next
  case False
  then show ?thesis using encodeTextInImage_failure [OF False] by auto
qed

lemma encodeTextInImage_slot:
  assumes "fst (encodeTextInImage data text) = None" "k < length (payloadFrame text)"
  shows "slot k < length data"
    and "snd (encodeTextInImage data text) ! slot k =
           (data ! slot k AND 0xFE) OR (if payloadFrame text ! k then 1 else 0)"
proof -
  have "k < eligibleBelow (length data)"
    using assms encodeTextInImage_success(2) [OF assms(1)]
      maxEmbeddableBits_le_eligible [of data] by simp
  then show inside: "slot k < length data" by (rule slot_less_length)
  show "snd (encodeTextInImage data text) ! slot k =
           (data ! slot k AND 0xFE) OR (if payloadFrame text ! k then 1 else 0)"
    using assms by (simp add: encodeTextInImage_nth [OF inside] slot_not_alpha eligibleBelow_slot)
qed

section \<open>What extraction reads\<close>

lemma decodeTextFromImage_cong:
  assumes len: "length data' = length data"
    and agree: "\<And>k. k < eligibleBelow (length data) \<Longrightarrow> data' ! slot k AND 1 = data ! slot k AND 1"
  shows "decodeTextFromImage data' = decodeTextFromImage data"
proof (cases "32 \<le> maxEmbeddableBits data")
  case False
  then show ?thesis using len by (simp add: decodeTextFromImage_def maxEmbeddableBits_def)
next
  case True
  have same: "maxEmbeddableBits data' = maxEmbeddableBits data"
    using len by (simp add: maxEmbeddableBits_def)
  have bound: "maxEmbeddableBits data \<le> eligibleBelow (length data)"
    by (rule maxEmbeddableBits_le_eligible)
  have prefix: "map (\<lambda>k. data' ! slot k AND 1 = 1) [0..<32] = map (\<lambda>k. data ! slot k AND 1 = 1) [0..<32]"
    using True bound by (intro map_cong refl) (simp add: agree)
  have message: "map (\<lambda>k. data' ! slot (32 + k) AND 1 = 1) [0..<m]
      = map (\<lambda>k. data ! slot (32 + k) AND 1 = 1) [0..<m]"
    if "m \<le> maxEmbeddableBits data - 32" for m
    using that True bound by (intro map_cong refl) (simp add: agree)
  show ?thesis
    using True
    by (simp add: decodeTextFromImage_closed same prefix Let_def message)
qed

lemma parseInt2_all_zero: "parseInt2 (map (\<lambda>k. False) [0..<n]) = 0"
  using parseInt2_zeros [of n "[]"] by (simp add: map_replicate_const parseInt2_def)

lemma decodeTextFromImage_zero_prefix:
  assumes "32 \<le> maxEmbeddableBits data" "\<And>k. k < 32 \<Longrightarrow> data ! slot k AND 1 \<noteq> 1"
  shows "decodeTextFromImage data = Inr []"
proof -
  have zeros: "map (\<lambda>k. data ! slot k AND 1 = 1) [0..<32] = map (\<lambda>k. False) [0..<32]"
    by (intro map_cong refl) (simp add: assms(2))
  show ?thesis
    using assms(1) by (simp add: decodeTextFromImage_closed zeros parseInt2_all_zero)
qed

lemma parseInt2_ones: "parseInt2 (replicate n True) = 2 ^ n - 1"
proof (induction n)
  case 0
  then show ?case by (simp add: parseInt2_def)
next
  case (Suc n)
  have snoc: "replicate (Suc n) True = replicate n True @ [True]"
    by (simp only: replicate_append_same replicate_Suc)
  obtain m :: nat where m: "2 ^ n = Suc m"
    by (cases "(2::nat) ^ n") simp_all
  show ?case unfolding snoc parseInt2_snoc Suc by (simp add: m)
qed

section \<open>The UTF-8 round trip of the platform coder\<close>

lemma utf8_roundtrip_1:
  assumes "cp < 0x80"
  shows "utf8Decode (utf8EncodeCodePoint cp @ rest) = map_option ((#) cp) (utf8Decode rest)"
  using assms by (simp add: utf8EncodeCodePoint_def)

lemma utf8_roundtrip_2:
  assumes "0x80 \<le> cp" "cp < 0x800"
  shows "utf8Decode (utf8EncodeCodePoint cp @ rest) = map_option ((#) cp) (utf8Decode rest)"
proof -
  define a where "a = cp div 0x40"
  define b where "b = cp mod 0x40"
  have cp: "cp = a * 0x40 + b" and b: "b < 0x40" by (simp_all add: a_def b_def)
  have a: "2 \<le> a" "a < 0x20" using assms unfolding a_def by simp_all
  have enc: "utf8EncodeCodePoint cp = [0xC0 + a, 0x80 + b]"
    using assms by (simp add: utf8EncodeCodePoint_def a_def b_def)
  show ?thesis
    unfolding enc using a b by (simp add: inRange_def cp)
qed

lemma split3:
  fixes cp :: nat
  shows "cp = (cp div 0x1000) * 0x1000 + (cp div 0x40 mod 0x40) * 0x40 + cp mod 0x40"
proof -
  have "cp div 0x1000 = cp div 0x40 div 0x40"
    by (simp add: div_mult2_eq [symmetric])
  moreover have "cp div 0x40 = (cp div 0x40 div 0x40) * 0x40 + cp div 0x40 mod 0x40"
    by simp
  moreover have "cp = (cp div 0x40) * 0x40 + cp mod 0x40"
    by simp
  ultimately show ?thesis by linarith
qed

lemma utf8_roundtrip_3:
  assumes "0x800 \<le> cp" "cp < 0x10000" "cp < 0xD800 \<or> 0xDFFF < cp"
  shows "utf8Decode (utf8EncodeCodePoint cp @ rest) = map_option ((#) cp) (utf8Decode rest)"
proof -
  define a where "a = cp div 0x1000"
  define b where "b = cp div 0x40 mod 0x40"
  define c where "c = cp mod 0x40"
  have cp: "cp = a * 0x1000 + b * 0x40 + c"
    unfolding a_def b_def c_def by (rule split3)
  have b: "b < 0x40" and c: "c < 0x40"
    unfolding b_def c_def by simp_all
  have a: "a < 0x10" using assms unfolding a_def by simp
  have lo: "a = 0 \<longrightarrow> 0x20 \<le> b" using assms(1) b c unfolding cp by auto
  have hi: "a = 0xD \<longrightarrow> b \<le> 0x1F" using assms(2,3) b c unfolding cp by auto
  have enc: "utf8EncodeCodePoint cp = [0xE0 + a, 0x80 + b, 0x80 + c]"
    using assms by (simp add: utf8EncodeCodePoint_def a_def b_def c_def)
  have dec: "(0xE0 + a - 0xE0) * 0x1000 + (0x80 + b - 0x80) * 0x40 + (0x80 + c - 0x80) = cp"
    by (simp add: cp)
  show ?thesis
    unfolding enc using a b c lo hi dec by (simp add: inRange_def)
qed

lemma split4:
  fixes cp :: nat
  shows "cp = (cp div 0x40000) * 0x40000 + (cp div 0x1000 mod 0x40) * 0x1000
              + (cp div 0x40 mod 0x40) * 0x40 + cp mod 0x40"
proof -
  have "cp div 0x40000 = cp div 0x1000 div 0x40"
    by (simp add: div_mult2_eq [symmetric])
  moreover have "cp div 0x1000 = (cp div 0x1000 div 0x40) * 0x40 + cp div 0x1000 mod 0x40"
    by simp
  ultimately show ?thesis using split3 [of cp] by linarith
qed

lemma utf8_roundtrip_4:
  assumes "0x10000 \<le> cp" "cp < 0x110000"
  shows "utf8Decode (utf8EncodeCodePoint cp @ rest) = map_option ((#) cp) (utf8Decode rest)"
proof -
  define a where "a = cp div 0x40000"
  define b where "b = cp div 0x1000 mod 0x40"
  define c where "c = cp div 0x40 mod 0x40"
  define d where "d = cp mod 0x40"
  have cp: "cp = a * 0x40000 + b * 0x1000 + c * 0x40 + d"
    unfolding a_def b_def c_def d_def by (rule split4)
  have b: "b < 0x40" and c: "c < 0x40" and d: "d < 0x40"
    unfolding b_def c_def d_def by simp_all
  have a: "a < 5" using assms unfolding a_def by simp
  have lo: "a = 0 \<longrightarrow> 0x10 \<le> b" using assms(1) b c d unfolding cp by auto
  have hi: "a = 4 \<longrightarrow> b \<le> 0xF" using assms(2) b c d unfolding cp by auto
  have enc: "utf8EncodeCodePoint cp = [0xF0 + a, 0x80 + b, 0x80 + c, 0x80 + d]"
    using assms by (simp add: utf8EncodeCodePoint_def a_def b_def c_def d_def)
  have dec: "(0xF0 + a - 0xF0) * 0x40000 + (0x80 + b - 0x80) * 0x1000
             + (0x80 + c - 0x80) * 0x40 + (0x80 + d - 0x80) = cp"
    by (simp add: cp)
  show ?thesis
    unfolding enc using a b c d lo hi dec by (simp add: inRange_def)
qed

lemma utf8_roundtrip_codepoint:
  assumes "isScalar cp"
  shows "utf8Decode (utf8EncodeCodePoint cp @ rest) = map_option ((#) cp) (utf8Decode rest)"
proof -
  consider "cp < 0x80" | "0x80 \<le> cp" "cp < 0x800" | "0x800 \<le> cp" "cp < 0x10000"
    | "0x10000 \<le> cp" by linarith
  then show ?thesis
    using assms
    by cases (simp_all add: isScalar_def utf8_roundtrip_1 utf8_roundtrip_2 utf8_roundtrip_3
                utf8_roundtrip_4)
qed

lemma utf8_roundtrip:
  "\<forall>cp\<in>set cps. isScalar cp \<Longrightarrow> utf8Decode (concat (map utf8EncodeCodePoint cps)) = Some cps"
  by (induction cps) (simp_all add: utf8_roundtrip_codepoint)

lemma unat_u16: "unat (c::16 word) < 0x10000"
  using unsigned_less [of c, where ?'a = nat] by simp

lemma pair_scalar:
  assumes "isLead c" "isTrail d"
  shows "0x10000 \<le> 0x10000 + (unat c - 0xD800) * 0x400 + (unat d - 0xDC00)"
    and "0x10000 + (unat c - 0xD800) * 0x400 + (unat d - 0xDC00) < 0x110000"
proof -
  have "unat c - 0xD800 \<le> 0x3FF" "unat d - 0xDC00 \<le> 0x3FF"
    using assms unfolding isLead_def isTrail_def by linarith+
  then have "(unat c - 0xD800) * 0x400 \<le> 0x3FF * 0x400"
    by (intro mult_le_mono1)
  with \<open>unat d - 0xDC00 \<le> 0x3FF\<close>
  show "0x10000 + (unat c - 0xD800) * 0x400 + (unat d - 0xDC00) < 0x110000" by simp
qed simp

lemma toScalarValues_scalar: "\<forall>cp\<in>set (toScalarValues text). isScalar cp"
proof (induction "text" rule: toScalarValues.induct)
  case 1
  then show ?case by simp
next
  case (2 c)
  then show ?case using unat_u16 [of c] by (auto simp: isScalar_def isLead_def isTrail_def)
next
  case (3 c d cs)
  show ?case
  proof (cases "isLead c \<and> isTrail d")
    case True
    then have "isScalar (0x10000 + (unat c - 0xD800) * 0x400 + (unat d - 0xDC00))"
      using pair_scalar [of c d] by (simp add: isScalar_def)
    with True 3 show ?thesis by simp
  next
    case False
    have "isScalar (if isLead c \<or> isTrail c then 0xFFFD else unat c)"
      using unat_u16 [of c] by (auto simp: isScalar_def isLead_def isTrail_def)
    with False 3 show ?thesis by auto
  qed
qed

lemma utf8EncodeCodePoint_bytes:
  assumes "isScalar cp" "b \<in> set (utf8EncodeCodePoint cp)"
  shows "b < 256"
proof -
  have "cp div 0x40000 < 5" "cp < 0x10000 \<longrightarrow> cp div 0x1000 < 0x10"
    "cp < 0x800 \<longrightarrow> cp div 0x40 < 0x20"
    using assms(1) by (auto simp: isScalar_def)
  moreover have "0x80 + cp div 0x1000 mod 0x40 < 256" "0x80 + cp div 0x40 mod 0x40 < 256"
    "0x80 + cp mod 0x40 < 256"
    by simp_all
  ultimately show ?thesis
    using assms(2) by (auto simp: utf8EncodeCodePoint_def split: if_splits)
qed

lemma textEncode_bytes: "b \<in> set (textEncode text) \<Longrightarrow> b < 256"
  using toScalarValues_scalar [of "text"]
  by (auto simp: textEncode_def intro: utf8EncodeCodePoint_bytes)

lemma utf8Decode_textEncode: "utf8Decode (textEncode text) = Some (toScalarValues text)"
  unfolding textEncode_def by (rule utf8_roundtrip) (rule toScalarValues_scalar)

lemma codeUnits_bmp: "codeUnits (unat (c::16 word)) = [c]"
  using unat_u16 [of c] by (simp add: codeUnits_def)

lemma codeUnits_pair:
  assumes "isLead c" "isTrail d"
  shows "codeUnits (0x10000 + (unat c - 0xD800) * 0x400 + (unat d - 0xDC00)) = [c, d]"
proof -
  have d: "unat d - 0xDC00 < 0x400" "0xDC00 \<le> unat d"
    and c: "0xD800 \<le> unat c"
    using assms unfolding isLead_def isTrail_def by linarith+
  have "((unat c - 0xD800) * 0x400 + (unat d - 0xDC00)) div 0x400 = unat c - 0xD800"
    using d(1) by simp
  moreover have "((unat c - 0xD800) * 0x400 + (unat d - 0xDC00)) mod 0x400 = unat d - 0xDC00"
    using d(1) by simp
  moreover have "\<not> 0x10000 + (unat c - 0xD800) * 0x400 + (unat d - 0xDC00) < 0x10000"
    by simp
  moreover have "0x10000 + (unat c - 0xD800) * 0x400 + (unat d - 0xDC00) - 0x10000
      = (unat c - 0xD800) * 0x400 + (unat d - 0xDC00)"
    by simp
  ultimately have "codeUnits (0x10000 + (unat c - 0xD800) * 0x400 + (unat d - 0xDC00))
      = [of_nat (0xD800 + (unat c - 0xD800)), of_nat (0xDC00 + (unat d - 0xDC00))]"
    unfolding codeUnits_def by (simp only: if_False)
  also have "\<dots> = [c, d]" using c d(2) by simp
  finally show ?thesis .
qed

lemma codeUnits_toScalarValues:
  "wellFormed text \<Longrightarrow> concat (map codeUnits (toScalarValues text)) = text"
proof (induction "text" rule: toScalarValues.induct)
  case 1
  then show ?case by simp
next
  case (2 c)
  then show ?case by (simp add: codeUnits_bmp)
next
  case (3 c d cs)
  show ?case
  proof (cases "isLead c")
    case True
    with "3.prems" have "isTrail d" "wellFormed cs" by simp_all
    with True "3.IH"(1) show ?thesis by (simp add: codeUnits_pair)
  next
    case False
    with "3.prems" have "\<not> isTrail c" "wellFormed (d # cs)" by simp_all
    with False "3.IH"(2) show ?thesis by (simp add: codeUnits_bmp)
  qed
qed

lemma stripBOM_toScalarValues:
  assumes "wellFormed text" "\<not> startsWithBOM text"
  shows "stripBOM (toScalarValues text) = toScalarValues text"
proof (cases "text" rule: toScalarValues.cases)
  case 1
  then show ?thesis by (simp add: stripBOM_def)
next
  case (2 c)
  with assms have "unat c \<noteq> 0xFEFF"
    by (auto simp: startsWithBOM_def word_unat_eq_iff)
  with 2 assms show ?thesis by (simp add: stripBOM_def)
next
  case (3 c d cs)
  with assms have "unat c \<noteq> 0xFEFF"
    by (auto simp: startsWithBOM_def word_unat_eq_iff)
  with 3 assms show ?thesis by (auto simp: stripBOM_def)
qed

lemma textDecodeFatal_textEncode:
  assumes "wellFormed text" "\<not> startsWithBOM text"
  shows "textDecodeFatal (textEncode text) = Some text"
  using assms
  by (simp add: textDecodeFatal_def utf8Decode_textEncode stripBOM_toScalarValues
        codeUnits_toScalarValues)

lemma toScalarValues_empty: "toScalarValues t = [] \<longleftrightarrow> t = []"
  by (cases t rule: toScalarValues.cases) simp_all

lemma toScalarValues_plain:
  "\<not> isLead c \<Longrightarrow> \<not> isTrail c \<Longrightarrow> toScalarValues (c # cs) = unat c # toScalarValues cs"
  by (cases cs) simp_all

lemma utf8EncodeCodePoint_nonempty: "utf8EncodeCodePoint cp \<noteq> []"
  by (simp add: utf8EncodeCodePoint_def)

lemma textEncode_ascii:
  "unat c < 0x80 \<Longrightarrow> textEncode (replicate n c) = replicate n (unat c)"
proof (induction n)
  case 0
  then show ?case by (simp add: textEncode_def)
next
  case (Suc n)
  then have "\<not> isLead c" "\<not> isTrail c" by (simp_all add: isLead_def isTrail_def)
  then have "textEncode (c # replicate n c) = utf8EncodeCodePoint (unat c) @ textEncode (replicate n c)"
    by (simp add: textEncode_def toScalarValues_plain)
  with Suc show ?case by (simp add: utf8EncodeCodePoint_def)
qed

section \<open>Text to binary digits and back\<close>

lemma foldl_append_concat: "foldl (\<lambda>s b. s @ f b) acc xs = acc @ concat (map f xs)"
  by (induction xs arbitrary: acc) simp_all

lemma textToUTF8Binary_concat:
  "textToUTF8Binary t = concat (map (\<lambda>byte. padStart 8 (toString2 byte)) (textEncode t))"
  by (simp add: textToUTF8Binary_def foldl_append_concat)

lemma length_concat_bytes:
  "\<forall>b\<in>set bytes. b < 256 \<Longrightarrow>
   length (concat (map (\<lambda>byte. padStart 8 (toString2 byte)) bytes)) = 8 * length bytes"
  by (induction bytes) (simp_all add: length_padStart_toString2)

lemma length_textToUTF8Binary: "length (textToUTF8Binary t) = 8 * length (textEncode t)"
  unfolding textToUTF8Binary_concat
  by (rule length_concat_bytes) (simp add: textEncode_bytes)

lemma textToUTF8Binary_Nil: "textToUTF8Binary [] = []"
  by (simp add: textToUTF8Binary_def textEncode_def)

lemma textToUTF8Binary_empty: "textToUTF8Binary t = [] \<longleftrightarrow> t = []"
  using length_textToUTF8Binary [of t]
  by (auto simp: textEncode_def toScalarValues_empty utf8EncodeCodePoint_nonempty)

lemma toString2_0: "toString2 0 = [False]"
  by (simp add: toString2.simps)

lemma payloadFrame_Nil: "payloadFrame [] = replicate 32 False"
proof -
  have "replicate 31 False @ [False] = replicate (Suc 31) False"
    by (simp only: replicate_append_same replicate_Suc)
  then show ?thesis
    by (simp add: payloadFrame_def textToUTF8Binary_Nil toString2_0 padStart_def)
qed

lemma loop_past_end:
  "length bs \<le> i \<Longrightarrow> binaryToUTF8Text_loop bs i acc = acc"
  by (subst binaryToUTF8Text_loop.simps) simp

lemma loop_chunks:
  "\<forall>c\<in>set chunks. length c = 8 \<Longrightarrow>
   binaryToUTF8Text_loop (pre @ concat chunks) (length pre) acc = acc @ map parseInt2 chunks"
proof (induction chunks arbitrary: pre acc)
  case Nil
  then show ?case by (simp add: loop_past_end)
next
  case (Cons c cs)
  then have c: "length c = 8" by simp
  have chunk: "substring (pre @ c @ concat cs) (length pre)
      (min (length pre + 8) (length (pre @ c @ concat cs))) = c"
    using c by (simp add: substring_def)
  have "binaryToUTF8Text_loop (pre @ c @ concat cs) (length pre) acc =
        binaryToUTF8Text_loop (pre @ c @ concat cs) (length pre + 8) (acc @ [parseInt2 c])"
    using c
    by (subst binaryToUTF8Text_loop.simps) (simp only: chunk Let_def, simp)
  also have "\<dots> = binaryToUTF8Text_loop ((pre @ c) @ concat cs) (length (pre @ c)) (acc @ [parseInt2 c])"
    using c by simp
  also have "\<dots> = (acc @ [parseInt2 c]) @ map parseInt2 cs"
    using Cons.prems by (intro Cons.IH) simp
  finally show ?case by simp
qed

lemma loop_textToUTF8Binary:
  "binaryToUTF8Text_loop (textToUTF8Binary t) 0 [] = textEncode t"
proof -
  have "binaryToUTF8Text_loop ([] @ concat (map (\<lambda>byte. padStart 8 (toString2 byte)) (textEncode t)))
          (length ([]::bits)) []
        = [] @ map parseInt2 (map (\<lambda>byte. padStart 8 (toString2 byte)) (textEncode t))"
    by (rule loop_chunks) (auto simp: length_padStart_toString2 textEncode_bytes)
  then show ?thesis
    by (simp add: textToUTF8Binary_concat o_def parseInt2_padStart)
qed

lemma binaryToUTF8Text_of_text:
  "binaryToUTF8Text (textToUTF8Binary t) =
     (case textDecodeFatal (textEncode t) of Some decoded \<Rightarrow> Inr decoded | None \<Rightarrow> Inl InvalidEncoding)"
proof -
  have "map (\<lambda>b. b mod 256) (textEncode t) = textEncode t"
    by (rule map_idI) (simp add: textEncode_bytes)
  then show ?thesis
    by (simp add: binaryToUTF8Text_def loop_textToUTF8Binary)
qed

lemma binaryToUTF8Text_textToUTF8Binary:
  assumes "wellFormed t" "\<not> startsWithBOM t"
  shows "binaryToUTF8Text (textToUTF8Binary t) = Inr t"
proof -
  have "map (\<lambda>b. b mod 256) (textEncode t) = textEncode t"
    by (rule map_idI) (simp add: textEncode_bytes)
  then show ?thesis
    using assms
    by (simp add: binaryToUTF8Text_def loop_textToUTF8Binary textDecodeFatal_textEncode)
qed




section \<open>Extraction after embedding\<close>

lemma high_bits_eq:
  assumes "(x::u8) AND 0xFE = y AND 0xFE" "0 < n"
  shows "bit x n = bit y n"
proof -
  have "bit (x AND NOT 1) n = bit (y AND NOT 1) n"
    using assms(1) by (simp add: fe_not_one)
  then show ?thesis
    using assms(2) by (auto simp: bit_and_iff bit_not_iff bit_1_iff dest: bit_imp_le_length)
qed

lemma nth_segment:
  "length p = a + n \<Longrightarrow> map (\<lambda>k. p ! (a + k)) [0..<n] = drop a p"
  by (rule nth_equalityI) simp_all

lemma nth_prefix:
  "a \<le> length p \<Longrightarrow> map (\<lambda>k. p ! k) [0..<a] = take a p"
  by (rule nth_equalityI) simp_all

lemma extract_after_embed:
  assumes bits: "length (textToUTF8Binary t) < 2 ^ 32"
    and room: "32 + length (textToUTF8Binary t) \<le> maxEmbeddableBits data"
  shows "fst (encodeTextInImage data t) = None"
    and "decodeTextFromImage (snd (encodeTextInImage data t)) =
           (if length (textToUTF8Binary t) = 0 then Inr []
            else binaryToUTF8Text (textToUTF8Binary t))"
proof -
  let ?n = "length (textToUTF8Binary t)"
  let ?d = "snd (encodeTextInImage data t)"
  show ok: "fst (encodeTextInImage data t) = None"
    using assms by (simp add: encodeTextInImage_outcome Let_def)
  have len: "length (payloadFrame t) = 32 + ?n"
    using bits by (rule length_payloadFrame)
  have cap: "maxEmbeddableBits ?d = maxEmbeddableBits data"
    by (simp add: maxEmbeddableBits_def length_encodeTextInImage)
  have read: "(?d ! slot k AND 1 = 1) = payloadFrame t ! k" if "k < 32 + ?n" for k
    using that encodeTextInImage_slot(2) [OF ok, of k] len by (simp add: lsb_put)
  have "map (\<lambda>k. ?d ! slot k AND 1 = 1) [0..<32] = map (\<lambda>k. payloadFrame t ! k) [0..<32]"
    by (intro map_cong refl) (simp add: read)
  also have "\<dots> = take 32 (payloadFrame t)"
    using len by (intro nth_prefix) simp
  also have "\<dots> = padStart 32 (toString2 ?n)"
    using bits by (simp add: payloadFrame_def length_padStart_toString2)
  finally have prefix: "map (\<lambda>k. ?d ! slot k AND 1 = 1) [0..<32] = padStart 32 (toString2 ?n)" .
  have "map (\<lambda>k. ?d ! slot (32 + k) AND 1 = 1) [0..<?n]
      = map (\<lambda>k. payloadFrame t ! (32 + k)) [0..<?n]"
    by (intro map_cong refl) (simp add: read)
  also have "\<dots> = drop 32 (payloadFrame t)"
    using len by (rule nth_segment)
  also have "\<dots> = textToUTF8Binary t"
    using bits by (simp add: payloadFrame_def length_padStart_toString2)
  finally have message: "map (\<lambda>k. ?d ! slot (32 + k) AND 1 = 1) [0..<?n] = textToUTF8Binary t" .
  have fits: "\<not> maxEmbeddableBits data - 32 < ?n" "32 \<le> maxEmbeddableBits data"
    using room by simp_all
  show "decodeTextFromImage ?d =
          (if ?n = 0 then Inr [] else binaryToUTF8Text (textToUTF8Binary t))"
    using fits
    by (simp add: decodeTextFromImage_closed cap prefix parseInt2_padStart Let_def message)
qed

section \<open>Concrete inputs\<close>

text \<open>
  The text \<^verbatim>\<open>"hi"\<close>, a text that starts with U+FEFF, a text that is one unpaired
  surrogate, and a 44-byte buffer whose eligible bytes all have least-significant bit 1.
\<close>

lemma hi_bytes: "textEncode [0x68, 0x69] = [0x68, 0x69]"
  by (simp add: textEncode_def utf8EncodeCodePoint_def isLead_def isTrail_def)

lemma hi_bits: "length (textToUTF8Binary [0x68, 0x69]) = 16"
  by (simp add: length_textToUTF8Binary hi_bytes)

lemma hi_embeds: "fst (encodeTextInImage (replicate 64 0xFF) [0x68, 0x69]) = None"
  by (simp add: encodeTextInImage_outcome hi_bits maxEmbeddableBits_def)

lemma bom_bytes: "textEncode [0xFEFF, 0x41] = [0xEF, 0xBB, 0xBF, 0x41]"
  by (simp add: textEncode_def utf8EncodeCodePoint_def isLead_def isTrail_def)

lemma bom_decoded: "textDecodeFatal [0xEF, 0xBB, 0xBF, 0x41] = Some [0x41]"
  by (simp add: textDecodeFatal_def inRange_def stripBOM_def codeUnits_def)

lemma lone_bytes: "textEncode [0xD800] = [0xEF, 0xBF, 0xBD]"
  by (simp add: textEncode_def utf8EncodeCodePoint_def isLead_def isTrail_def)

lemma lone_decoded: "textDecodeFatal [0xEF, 0xBF, 0xBD] = Some [0xFFFD]"
  by (simp add: textDecodeFatal_def inRange_def stripBOM_def codeUnits_def)

lemma ones_prefix:
  "parseInt2 (map (\<lambda>k. replicate 44 (0xFF::u8) ! slot k AND 1 = 1) [0..<32]) = 4294967295"
proof -
  have "map (\<lambda>k. replicate 44 (0xFF::u8) ! slot k AND 1 = 1) [0..<32] = map (\<lambda>k. True) [0..<32]"
  proof (intro map_cong refl)
    fix k assume "k \<in> set [0..<32]"
    then have "slot k < 44" by (intro slot_less_length) (simp add: eligibleBelow_def)
    then show "(replicate 44 (0xFF::u8) ! slot k AND 1 = 1) = True" by simp
  qed
  also have "\<dots> = replicate 32 True" by (simp add: map_replicate_const)
  finally show ?thesis by (simp only: parseInt2_ones) simp
qed

section \<open>The string bound of the engine\<close>

lemma foldl_limited_failed:
  "foldl (\<lambda>acc x. case acc of Inl e \<Rightarrow> Inl e | Inr s \<Rightarrow> concatLimited m s (f x)) (Inl e) xs = Inl e"
  by (induction xs) simp_all

lemma foldl_limited:
  "length acc \<le> m \<Longrightarrow>
   foldl (\<lambda>acc x. case acc of Inl e \<Rightarrow> Inl e | Inr s \<Rightarrow> concatLimited m s (f x)) (Inr acc) xs =
     (if length acc + length (concat (map f xs)) > m then Inl RangeError
      else Inr (acc @ concat (map f xs)))"
proof (induction xs arbitrary: acc)
  case Nil
  then show ?case by simp
next
  case (Cons x xs)
  show ?case
  proof (cases "length acc + length (f x) > m")
    case True
    then show ?thesis by (simp add: concatLimited_def foldl_limited_failed)
  next
    case False
    then show ?thesis by (simp add: concatLimited_def Cons.IH add.assoc)
  qed
qed

lemma textToUTF8Binary_limited_eq:
  "textToUTF8Binary_limited m t =
     (if length (textToUTF8Binary t) > m then Inl RangeError else Inr (textToUTF8Binary t))"
  unfolding textToUTF8Binary_limited_def textToUTF8Binary_concat
  using foldl_limited [of "[]" m "\<lambda>byte. padStart 8 (toString2 byte)" "textEncode t"]
  by simp

lemma encodeTextInImage_limited_outcome:
  "encodeTextInImage_limited m data t =
     (let n = length (textToUTF8Binary t) in
      if m < n then (Some RangeError, data)
      else if 2 ^ 32 \<le> n then (Some (Overflow n 32), data)
      else if m < 32 + n then (Some RangeError, data)
      else encodeTextInImage data t)"
  by (simp add: encodeTextInImage_limited_def textToUTF8Binary_limited_eq numberToBinary_eq
        concatLimited_def length_padStart_toString2 Let_def encodeTextInImage_def not_le)

lemma encodeTextInImage_limited_below:
  "32 + length (textToUTF8Binary t) \<le> m \<Longrightarrow>
   encodeTextInImage_limited m data t = encodeTextInImage data t"
  by (simp add: encodeTextInImage_limited_outcome Let_def encodeTextInImage_outcome)

lemma encodeTextInImage_limited_failure:
  "fst (encodeTextInImage_limited m data t) \<noteq> None \<Longrightarrow>
   snd (encodeTextInImage_limited m data t) = data"
  by (auto simp: encodeTextInImage_limited_outcome Let_def encodeTextInImage_failure
           split: if_splits)

section \<open>The claims\<close>

text \<open>
  C1. Round trip. The statement holds for the strings that the platform coder leaves
  alone. Let the buffer be an RGBA buffer (its length a multiple of 4), and let the text be
  well-formed UTF-16 that does not begin with U+FEFF and whose UTF-8 form has fewer than
  \<open>2 ^ 32\<close> bits. If the capacity \<open>floor (length / 4) * 3\<close> is at least 32 plus the number
  of message bits, embedding succeeds and extraction from the mutated buffer returns
  exactly the text.
\<close>

theorem embed_extract_roundtrip:
  assumes "length data mod 4 = 0"
    and "wellFormed t" "\<not> startsWithBOM t"
    and "length (textToUTF8Binary t) < 2 ^ 32"
    and "32 + length (textToUTF8Binary t) \<le> capacity data"
  shows "fst (encodeTextInImage data t) = None
       \<and> decodeTextFromImage (snd (encodeTextInImage data t)) = Inr t"
proof -
  have room: "32 + length (textToUTF8Binary t) \<le> maxEmbeddableBits data"
    using assms(1,5) by (simp add: maxEmbeddableBits_capacity)
  show ?thesis
    using extract_after_embed [OF assms(4) room] assms(2,3)
    by (auto simp: binaryToUTF8Text_textToUTF8Binary textToUTF8Binary_empty)
qed

theorem embed_extract_roundtrip_witness:
  "length (replicate 64 (0xFF::u8)) mod 4 = 0
   \<and> wellFormed [0x68, 0x69] \<and> \<not> startsWithBOM [0x68, 0x69]
   \<and> length (textToUTF8Binary [0x68, 0x69]) < 2 ^ 32
   \<and> 32 + length (textToUTF8Binary [0x68, 0x69]) \<le> capacity (replicate 64 (0xFF::u8))
   \<and> fst (encodeTextInImage (replicate 64 0xFF) [0x68, 0x69]) = None
   \<and> decodeTextFromImage (snd (encodeTextInImage (replicate 64 0xFF) [0x68, 0x69])) = Inr [0x68, 0x69]"
  using embed_extract_roundtrip [of "replicate 64 0xFF" "[0x68, 0x69]"]
  by (simp add: hi_bits capacity_def isLead_def isTrail_def startsWithBOM_def)

text \<open>
  For every string the round trip does not hold. \<^verbatim>\<open>TextDecoder\<close> is created without
  \<^verbatim>\<open>ignoreBOM\<close>, so a leading U+FEFF of the message is lost: \<^verbatim>\<open>"\uFEFFA"\<close> comes back as
  \<^verbatim>\<open>"A"\<close>. \<^verbatim>\<open>TextEncoder\<close> replaces an unpaired surrogate: \<^verbatim>\<open>"\uD800"\<close> comes back as
  \<^verbatim>\<open>"\uFFFD"\<close>. Both fit the 88-byte buffer (capacity 66).
\<close>

theorem embed_extract_roundtrip_counterexample:
  "length (replicate 88 (0::u8)) mod 4 = 0
   \<and> 32 + length (textToUTF8Binary [0xFEFF, 0x41]) \<le> capacity (replicate 88 (0::u8))
   \<and> fst (encodeTextInImage (replicate 88 0) [0xFEFF, 0x41]) = None
   \<and> decodeTextFromImage (snd (encodeTextInImage (replicate 88 0) [0xFEFF, 0x41])) = Inr [0x41]
   \<and> decodeTextFromImage (snd (encodeTextInImage (replicate 88 0) [0xFEFF, 0x41]))
       \<noteq> Inr [0xFEFF, 0x41]
   \<and> 32 + length (textToUTF8Binary [0xD800]) \<le> capacity (replicate 88 (0::u8))
   \<and> fst (encodeTextInImage (replicate 88 0) [0xD800]) = None
   \<and> decodeTextFromImage (snd (encodeTextInImage (replicate 88 0) [0xD800])) = Inr [0xFFFD]
   \<and> decodeTextFromImage (snd (encodeTextInImage (replicate 88 0) [0xD800])) \<noteq> Inr [0xD800]"
proof -
  have bom: "length (textToUTF8Binary [0xFEFF, 0x41]) = 32"
    by (simp add: length_textToUTF8Binary bom_bytes)
  have lone: "length (textToUTF8Binary [0xD800]) = 24"
    by (simp add: length_textToUTF8Binary lone_bytes)
  have cap: "maxEmbeddableBits (replicate 88 (0::u8)) = 66" "capacity (replicate 88 (0::u8)) = 66"
    by (simp_all add: maxEmbeddableBits_def capacity_def)
  show ?thesis
    using extract_after_embed [of "[0xFEFF, 0x41]" "replicate 88 0"]
      extract_after_embed [of "[0xD800]" "replicate 88 0"]
    by (simp add: bom lone cap binaryToUTF8Text_of_text bom_bytes bom_decoded lone_bytes lone_decoded)
qed




text \<open>
  C3. Capacity check. Let the engine allow strings of at most \<open>maxStringLength\<close> code
  units. For an RGBA buffer and a text whose payload string of 32 plus the number of
  message bits fits this bound, the message having fewer than \<open>2 ^ 32\<close> bits, embedding
  fails with \<open>CapacityExceeded\<close> exactly when 32 plus the number of message bits exceeds
  \<open>floor (length / 4) * 3\<close>, and succeeds otherwise; so a message of exactly capacity - 32
  bits is embedded and one bit more is refused. Whenever embedding fails, for whatever
  reason, the buffer is what it was: every check and every throw comes before the first
  write.
\<close>

theorem embed_capacity_check:
  assumes "length data mod 4 = 0"
  shows "(32 + length (textToUTF8Binary t) \<le> maxStringLength
            \<and> length (textToUTF8Binary t) < 2 ^ 32 \<longrightarrow>
          fst (encodeTextInImage_limited maxStringLength data t) =
            (if capacity data < 32 + length (textToUTF8Binary t)
             then Some (CapacityExceeded (capacity data) (32 + length (textToUTF8Binary t)))
             else None))
       \<and> (fst (encodeTextInImage_limited maxStringLength data t) \<noteq> None \<longrightarrow>
            snd (encodeTextInImage_limited maxStringLength data t) = data)"
proof -
  have "fst (encodeTextInImage_limited maxStringLength data t) =
            (if capacity data < 32 + length (textToUTF8Binary t)
             then Some (CapacityExceeded (capacity data) (32 + length (textToUTF8Binary t)))
             else None)"
    if "32 + length (textToUTF8Binary t) \<le> maxStringLength" "length (textToUTF8Binary t) < 2 ^ 32"
    using that assms
    by (simp add: encodeTextInImage_limited_below encodeTextInImage_outcome Let_def
          maxEmbeddableBits_capacity)
  then show ?thesis
    using encodeTextInImage_limited_failure [of maxStringLength data t] by blast
qed

theorem embed_capacity_check_witness:
  "length (replicate 16 (0::u8)) mod 4 = 0
   \<and> 32 + length (textToUTF8Binary [0x68, 0x69]) \<le> 536870888
   \<and> length (textToUTF8Binary [0x68, 0x69]) < 2 ^ 32
   \<and> encodeTextInImage_limited 536870888 (replicate 16 0) [0x68, 0x69]
       = (Some (CapacityExceeded 12 48), replicate 16 0)
   \<and> length (replicate 64 (0xFF::u8)) mod 4 = 0
   \<and> capacity (replicate 64 (0xFF::u8)) = 32 + length (textToUTF8Binary [0x68, 0x69])
   \<and> fst (encodeTextInImage_limited 536870888 (replicate 64 0xFF) [0x68, 0x69]) = None"
  using embed_capacity_check [of "replicate 16 0" "[0x68, 0x69]" 536870888]
    embed_capacity_check [of "replicate 64 0xFF" "[0x68, 0x69]" 536870888]
  by (simp add: hi_bits capacity_def prod_eq_iff)

text \<open>
  A text whose binary string is longer than the engine allows does not reach the capacity
  check: the concatenation in \<^verbatim>\<open>textToUTF8Binary\<close> throws \<^verbatim>\<open>RangeError\<close> first. The failure is
  then not \<open>CapacityExceeded\<close>, although the payload exceeds the capacity. Here the bound is
  that of V8, \<open>2 ^ 29 - 24\<close>, the text is 67108862 times the letter \<^verbatim>\<open>a\<close> (536870896 bits,
  fewer than \<open>2 ^ 32\<close>) and the buffer a 2x2 image.
\<close>

theorem embed_capacity_check_counterexample:
  "capacity (replicate 16 (0::u8)) < 32 + length (textToUTF8Binary (replicate 67108862 0x61))
   \<and> length (textToUTF8Binary (replicate 67108862 0x61)) < 2 ^ 32
   \<and> encodeTextInImage_limited 536870888 (replicate 16 0) (replicate 67108862 0x61)
       = (Some RangeError, replicate 16 0)"
proof -
  have "length (textToUTF8Binary (replicate 67108862 0x61)) = 536870896"
    by (simp add: length_textToUTF8Binary textEncode_ascii)
  then show ?thesis
    by (simp add: encodeTextInImage_limited_outcome capacity_def)
qed

text \<open>
  C4. Alpha channel. A byte at an index \<open>i\<close> with \<open>i mod 4 = 3\<close> has the same value after
  embedding as before, whatever the outcome of embedding. Extraction does not depend on
  these bytes: two buffers of the same length that agree on every non-alpha byte give the
  same result.
\<close>

theorem alpha_channel_untouched:
  "(i < length data \<and> i mod 4 = 3 \<longrightarrow> snd (encodeTextInImage data text) ! i = data ! i)
   \<and> (length data' = length data \<and> (\<forall>j<length data. j mod 4 \<noteq> 3 \<longrightarrow> data' ! j = data ! j)
        \<longrightarrow> decodeTextFromImage data' = decodeTextFromImage data)"
proof -
  have "decodeTextFromImage data' = decodeTextFromImage data"
    if "length data' = length data" "\<forall>j<length data. j mod 4 \<noteq> 3 \<longrightarrow> data' ! j = data ! j"
    using that by (intro decodeTextFromImage_cong) (simp_all add: slot_less_length slot_not_alpha)
  then show ?thesis by (simp add: encodeTextInImage_nth)
qed

theorem alpha_channel_untouched_witness:
  "(3::nat) < length (replicate 44 (0xFF::u8)) \<and> (3::nat) mod 4 = 3
   \<and> snd (encodeTextInImage (replicate 44 0xFF) []) ! 3 = replicate 44 (0xFF::u8) ! 3
   \<and> length ((replicate 44 (0xFF::u8))[3 := 0]) = length (replicate 44 (0xFF::u8))
   \<and> decodeTextFromImage ((replicate 44 0xFF)[3 := 0]) = decodeTextFromImage (replicate 44 0xFF)"
proof -
  have "\<forall>j<length (replicate 44 (0xFF::u8)). j mod 4 \<noteq> 3 \<longrightarrow>
          (replicate 44 (0xFF::u8))[3 := 0] ! j = replicate 44 (0xFF::u8) ! j"
    by (auto simp: nth_list_update)
  then show ?thesis
    using alpha_channel_untouched [of 3 "replicate 44 0xFF" "[]" "(replicate 44 0xFF)[3 := 0]"]
    by simp
qed

text \<open>
  C5. Only the least-significant bit is edited. After a successful embedding the byte that
  holds payload bit \<open>k\<close>, at index \<open>slot k\<close>, is \<^verbatim>\<open>(original & 0xFE) | bit\<close>, and in every byte of
  the buffer the seven bits above the least-significant one are unchanged.
\<close>

theorem embed_changes_lsb_only:
  assumes "fst (encodeTextInImage data text) = None"
  shows "(k < length (payloadFrame text) \<longrightarrow>
            snd (encodeTextInImage data text) ! slot k =
              (data ! slot k AND 0xFE) OR (if payloadFrame text ! k then 1 else 0))
       \<and> (i < length data \<and> 0 < n \<longrightarrow>
            bit (snd (encodeTextInImage data text) ! i) n = bit (data ! i) n)"
proof -
  have "snd (encodeTextInImage data text) ! i AND 0xFE = data ! i AND 0xFE" if "i < length data"
    using that by (simp add: encodeTextInImage_nth high_put)
  then have "bit (snd (encodeTextInImage data text) ! i) n = bit (data ! i) n"
    if "i < length data" "0 < n"
    using that by (intro high_bits_eq) simp_all
  then show ?thesis
    using assms by (simp add: encodeTextInImage_slot(2))
qed

theorem embed_changes_lsb_only_witness:
  "fst (encodeTextInImage (replicate 64 0xFF) [0x68, 0x69]) = None
   \<and> 33 < length (payloadFrame [0x68, 0x69])
   \<and> snd (encodeTextInImage (replicate 64 0xFF) [0x68, 0x69]) ! slot 33 =
        (replicate 64 0xFF ! slot 33 AND 0xFE) OR (if payloadFrame [0x68, 0x69] ! 33 then 1 else 0)
   \<and> (2::nat) < length (replicate 64 (0xFF::u8)) \<and> (0::nat) < 7
   \<and> bit (snd (encodeTextInImage (replicate 64 0xFF) [0x68, 0x69]) ! 2) 7
       = bit (replicate 64 (0xFF::u8) ! 2) 7"
  using embed_changes_lsb_only [OF hi_embeds, of 33 2 7] hi_embeds
  by (simp add: length_payloadFrame hi_bits)

text \<open>
  C6. Length zero. In an RGBA buffer with at least 32 eligible bytes whose first 32
  eligible bytes all have least-significant bit 0, extraction succeeds with the empty
  string, a result \<open>Inr\<close> that no failure \<open>Inl e\<close> equals. In particular embedding the empty
  string succeeds and extraction then returns the empty string.
\<close>

theorem extract_zero_length_is_empty:
  assumes "length data mod 4 = 0" "32 \<le> capacity data"
  shows "((\<forall>k<32. data ! slot k AND 1 = 0)
            \<longrightarrow> decodeTextFromImage data = Inr [] \<and> decodeTextFromImage data \<noteq> Inl e)
       \<and> fst (encodeTextInImage data []) = None
       \<and> decodeTextFromImage (snd (encodeTextInImage data [])) = Inr []"
proof -
  have room: "32 \<le> maxEmbeddableBits data"
    using assms by (simp add: maxEmbeddableBits_capacity)
  have zero: "decodeTextFromImage data = Inr []" if "\<forall>k<32. data ! slot k AND 1 = 0"
    using room that by (intro decodeTextFromImage_zero_prefix) simp_all
  have ok: "fst (encodeTextInImage data []) = None"
    using room by (simp add: encodeTextInImage_outcome textToUTF8Binary_Nil)
  have "decodeTextFromImage (snd (encodeTextInImage data [])) = Inr []"
  proof (rule decodeTextFromImage_zero_prefix)
    show "32 \<le> maxEmbeddableBits (snd (encodeTextInImage data []))"
      using room by (simp add: maxEmbeddableBits_def length_encodeTextInImage)
    show "snd (encodeTextInImage data []) ! slot k AND 1 \<noteq> 1" if "k < 32" for k
      using that encodeTextInImage_slot(2) [OF ok, of k] lsb_put [of "data ! slot k" False]
      by (simp add: payloadFrame_Nil)
  qed
  with zero ok show ?thesis by simp
qed

theorem extract_zero_length_is_empty_witness:
  "length (replicate 44 (0::u8)) mod 4 = 0 \<and> 32 \<le> capacity (replicate 44 (0::u8))
   \<and> decodeTextFromImage (replicate 44 0) = Inr []
   \<and> decodeTextFromImage (replicate 44 0) \<noteq> Inl BufferTooSmall
   \<and> fst (encodeTextInImage (replicate 44 0) []) = None
   \<and> decodeTextFromImage (snd (encodeTextInImage (replicate 44 0) [])) = Inr []"
proof -
  have "\<forall>k<32. replicate 44 (0::u8) ! slot k AND 1 = 0"
  proof (intro allI impI)
    fix k :: nat assume "k < 32"
    then have "slot k < 44" by (intro slot_less_length) (simp add: eligibleBelow_def)
    then show "replicate 44 (0::u8) ! slot k AND 1 = 0" by simp
  qed
  then show ?thesis
    using extract_zero_length_is_empty [of "replicate 44 0" BufferTooSmall]
    by (simp add: capacity_def)
qed

text \<open>
  C7. Declared length beyond the capacity. In an RGBA buffer of capacity at least 32, let
  \<open>m\<close> be the number that the least-significant bits of the first 32 eligible bytes
  spell, most significant first. If \<open>m\<close> exceeds capacity - 32 (so it is not zero),
  extraction fails with \<open>DeclaredLengthExceedsCapacity\<close>. No message bit is read: every
  buffer of the same length with the same 32 prefix bits fails in the same way.
\<close>

theorem extract_rejects_declared_length:
  assumes "length data mod 4 = 0" "32 \<le> capacity data"
    and "parseInt2 (map (\<lambda>k. data ! slot k AND 1 = 1) [0..<32]) = m"
    and "capacity data - 32 < m"
    and "length data' = length data" "\<forall>k<32. data' ! slot k AND 1 = data ! slot k AND 1"
  shows "decodeTextFromImage data = Inl (DeclaredLengthExceedsCapacity m (capacity data - 32))
       \<and> decodeTextFromImage data' = decodeTextFromImage data"
proof -
  have fails: "decodeTextFromImage d = Inl (DeclaredLengthExceedsCapacity m (capacity data - 32))"
    if "length d = length data" "\<forall>k<32. d ! slot k AND 1 = data ! slot k AND 1" for d
  proof -
    have cap: "maxEmbeddableBits d = capacity data"
      using that(1) assms(1) maxEmbeddableBits_capacity [of d] by (simp add: capacity_def)
    have same: "map (\<lambda>k. d ! slot k AND 1 = 1) [0..<32] = map (\<lambda>k. data ! slot k AND 1 = 1) [0..<32]"
      by (intro map_cong refl) (simp add: that(2))
    show ?thesis
      using assms(2-4) by (simp add: decodeTextFromImage_closed cap same)
  qed
  from fails [of data] fails [of data'] assms(5,6) show ?thesis by simp
qed

theorem extract_rejects_declared_length_witness:
  "length (replicate 44 (0xFF::u8)) mod 4 = 0 \<and> 32 \<le> capacity (replicate 44 (0xFF::u8))
   \<and> parseInt2 (map (\<lambda>k. replicate 44 (0xFF::u8) ! slot k AND 1 = 1) [0..<32]) = 4294967295
   \<and> capacity (replicate 44 (0xFF::u8)) - 32 < 4294967295
   \<and> length (replicate 44 (0x01::u8)) = length (replicate 44 (0xFF::u8))
   \<and> decodeTextFromImage (replicate 44 0xFF) = Inl (DeclaredLengthExceedsCapacity 4294967295 1)
   \<and> decodeTextFromImage (replicate 44 0x01) = decodeTextFromImage (replicate 44 0xFF)"
proof -
  have "\<forall>k<32. replicate 44 (0x01::u8) ! slot k AND 1 = replicate 44 (0xFF::u8) ! slot k AND 1"
  proof (intro allI impI)
    fix k :: nat assume "k < 32"
    then have "slot k < 44" by (intro slot_less_length) (simp add: eligibleBelow_def)
    then show "replicate 44 (0x01::u8) ! slot k AND 1 = replicate 44 (0xFF::u8) ! slot k AND 1"
      by simp
  qed
  then show ?thesis
    using extract_rejects_declared_length
      [of "replicate 44 0xFF" 4294967295 "replicate 44 0x01", OF _ _ ones_prefix]
    by (simp add: capacity_def ones_prefix)
qed

text \<open>
  C8. A buffer with fewer than 32 eligible bits, \<open>floor (length / 4) * 3 < 32\<close>, is rejected
  by extraction with \<open>BufferTooSmall\<close>, whatever its bytes are: the test comes before the
  first read. In particular every 2x2 RGBA buffer (16 bytes, capacity 12) is rejected so.
  Pixel buffers are RGBA buffers, their length is a multiple of 4.
\<close>

theorem extract_buffer_too_small:
  "(length data mod 4 = 0 \<and> capacity data < 32
      \<longrightarrow> decodeTextFromImage data = Inl BufferTooSmall)
   \<and> (length data = 16
      \<longrightarrow> capacity data = 12 \<and> decodeTextFromImage data = Inl BufferTooSmall)"
proof -
  have "decodeTextFromImage data = Inl BufferTooSmall"
    if "length data mod 4 = 0" "capacity data < 32"
    using that maxEmbeddableBits_capacity [of data]
    by (simp add: decodeTextFromImage_def)
  moreover have "capacity data = 12" "length data mod 4 = 0" if "length data = 16"
    using that by (simp_all add: capacity_def)
  ultimately show ?thesis by simp
qed

theorem extract_buffer_too_small_witness:
  "length (replicate 16 (0::u8)) mod 4 = 0 \<and> capacity (replicate 16 (0::u8)) < 32
   \<and> length (replicate 16 (0::u8)) = 16
   \<and> capacity (replicate 16 (0::u8)) = 12
   \<and> decodeTextFromImage (replicate 16 (0::u8)) = Inl BufferTooSmall"
  using extract_buffer_too_small [of "replicate 16 (0::u8)"]
  by (simp add: capacity_def)

text \<open>
  C9. The walk stays inside the buffer. In an RGBA buffer, a payload no longer than the
  capacity \<open>floor (length / 4) * 3\<close> is consumed to its end by the embedding loop: the loop
  ends normally, the buffer keeps its length, and every payload bit \<open>k\<close> is written, at the
  index \<open>slot k\<close> inside the buffer. So it is for \<^verbatim>\<open>encodeTextInImage\<close> on a text whose
  payload of 32 plus the number of message bits passes the capacity check, and
  \<^verbatim>\<open>encodeTextInImage\<close> never takes the ran-out-of-image-data branch.
\<close>

theorem embed_walk_in_bounds:
  assumes "length data mod 4 = 0"
  shows "(length p \<le> capacity data \<longrightarrow>
            fst (encodeTextInImage_loop data p 0 0) = None
            \<and> length (snd (encodeTextInImage_loop data p 0 0)) = length data
            \<and> (k < length p \<longrightarrow>
                  slot k < length data
                  \<and> snd (encodeTextInImage_loop data p 0 0) ! slot k =
                      (data ! slot k AND 0xFE) OR (if p ! k then 1 else 0)))
       \<and> (32 + length (textToUTF8Binary t) \<le> capacity data
            \<and> length (textToUTF8Binary t) < 2 ^ 32 \<longrightarrow>
            fst (encodeTextInImage data t) = None
            \<and> (j < 32 + length (textToUTF8Binary t) \<longrightarrow>
                  slot j < length data
                  \<and> snd (encodeTextInImage data t) ! slot j =
                      (data ! slot j AND 0xFE) OR (if payloadFrame t ! j then 1 else 0)))
       \<and> fst (encodeTextInImage data t) \<noteq> Some InternalInconsistency"
proof -
  have cap: "capacity data \<le> eligibleBelow (length data)"
    using maxEmbeddableBits_le_eligible [of data] maxEmbeddableBits_capacity [OF assms] by simp
  have "fst (encodeTextInImage_loop data p 0 0) = None" if "length p \<le> capacity data"
    using that cap by (intro encode_loop_ok) (simp_all add: eligibleBelow_def)
  moreover have inside: "slot k < length data" if "length p \<le> capacity data" "k < length p"
    using that cap by (intro slot_less_length) simp
  moreover have "snd (encodeTextInImage_loop data p 0 0) ! slot k =
      (data ! slot k AND 0xFE) OR (if p ! k then 1 else 0)"
    if "length p \<le> capacity data" "k < length p"
  proof -
    have start: "0 = eligibleBelow 0" by (simp add: eligibleBelow_def)
    show ?thesis
      using that encode_loop_nth [OF start inside [OF that], of p]
      by (simp add: slot_not_alpha eligibleBelow_slot)
  qed
  moreover have "fst (encodeTextInImage data t) = None"
    if "32 + length (textToUTF8Binary t) \<le> capacity data" "length (textToUTF8Binary t) < 2 ^ 32"
    using that assms by (simp add: encodeTextInImage_outcome Let_def maxEmbeddableBits_capacity)
  moreover have "slot j < length data
      \<and> snd (encodeTextInImage data t) ! slot j =
          (data ! slot j AND 0xFE) OR (if payloadFrame t ! j then 1 else 0)"
    if "32 + length (textToUTF8Binary t) \<le> capacity data" "length (textToUTF8Binary t) < 2 ^ 32"
       "j < 32 + length (textToUTF8Binary t)"
  proof -
    have ok: "fst (encodeTextInImage data t) = None"
      using that assms by (simp add: encodeTextInImage_outcome Let_def maxEmbeddableBits_capacity)
    have "j < length (payloadFrame t)" using that by (simp add: length_payloadFrame)
    then show ?thesis using encodeTextInImage_slot [OF ok] by simp
  qed
  moreover have "fst (encodeTextInImage data t) \<noteq> Some InternalInconsistency"
    by (simp add: encodeTextInImage_outcome Let_def)
  ultimately show ?thesis by (simp add: encode_loop_length)
qed

theorem embed_walk_in_bounds_witness:
  "length (replicate 64 (0xFF::u8)) mod 4 = 0
   \<and> length (payloadFrame [0x68, 0x69]) \<le> capacity (replicate 64 0xFF)
   \<and> fst (encodeTextInImage_loop (replicate 64 0xFF) (payloadFrame [0x68, 0x69]) 0 0) = None
   \<and> length (snd (encodeTextInImage_loop (replicate 64 0xFF) (payloadFrame [0x68, 0x69]) 0 0))
       = length (replicate 64 (0xFF::u8))
   \<and> 47 < length (payloadFrame [0x68, 0x69])
   \<and> slot 47 < length (replicate 64 (0xFF::u8))
   \<and> snd (encodeTextInImage_loop (replicate 64 0xFF) (payloadFrame [0x68, 0x69]) 0 0) ! slot 47
       = (replicate 64 0xFF ! slot 47 AND 0xFE) OR (if payloadFrame [0x68, 0x69] ! 47 then 1 else 0)
   \<and> 32 + length (textToUTF8Binary [0x68, 0x69]) \<le> capacity (replicate 64 (0xFF::u8))
   \<and> length (textToUTF8Binary [0x68, 0x69]) < 2 ^ 32
   \<and> fst (encodeTextInImage (replicate 64 0xFF) [0x68, 0x69]) = None
   \<and> 33 < 32 + length (textToUTF8Binary [0x68, 0x69])
   \<and> slot 33 < length (replicate 64 (0xFF::u8))
   \<and> snd (encodeTextInImage (replicate 64 0xFF) [0x68, 0x69]) ! slot 33
       = (replicate 64 0xFF ! slot 33 AND 0xFE) OR (if payloadFrame [0x68, 0x69] ! 33 then 1 else 0)
   \<and> fst (encodeTextInImage (replicate 64 0xFF) [0x68, 0x69]) \<noteq> Some InternalInconsistency"
  using embed_walk_in_bounds
    [of "replicate 64 0xFF" "payloadFrame [0x68, 0x69]" 47 "[0x68, 0x69]" 33]
  by (simp add: length_payloadFrame hi_bits capacity_def)

text \<open>
  C10. Embedding touches a prefix only. After a successful embedding of a payload of
  \<open>n = 32 + length (message bits)\<close> bits, the buffer has its old length, payload bit \<open>k\<close> is the
  least-significant bit of the byte at index \<open>slot k = 4 * (k div 3) + k mod 3\<close>, and every
  byte at an index above \<open>slot (n - 1)\<close> is unchanged.
\<close>

theorem embed_touches_prefix_only:
  assumes "fst (encodeTextInImage data text) = None"
  shows "length (payloadFrame text) = 32 + length (textToUTF8Binary text)
       \<and> length (snd (encodeTextInImage data text)) = length data
       \<and> (k < length (payloadFrame text) \<longrightarrow>
            slot k < length data
            \<and> (snd (encodeTextInImage data text) ! slot k AND 1 = 1) = payloadFrame text ! k)
       \<and> (slot (length (payloadFrame text) - 1) < i \<and> i < length data \<longrightarrow>
            snd (encodeTextInImage data text) ! i = data ! i)"
proof -
  have len: "length (payloadFrame text) = 32 + length (textToUTF8Binary text)"
    using encodeTextInImage_success(1) [OF assms] by (rule length_payloadFrame)
  have beyond: "snd (encodeTextInImage data text) ! i = data ! i"
    if "slot (length (payloadFrame text) - 1) < i" "i < length data"
  proof -
    have "eligibleBelow (Suc (slot (length (payloadFrame text) - 1))) \<le> eligibleBelow i"
      using that(1) by (intro eligibleBelow_mono) simp
    then have "length (payloadFrame text) \<le> eligibleBelow i"
      using len by (simp add: eligibleBelow_Suc slot_not_alpha eligibleBelow_slot)
    then show ?thesis using that(2) by (simp add: encodeTextInImage_nth)
  qed
  show ?thesis
    using len beyond encodeTextInImage_slot [OF assms]
    by (simp add: length_encodeTextInImage lsb_put)
qed

theorem embed_touches_prefix_only_witness:
  "fst (encodeTextInImage (replicate 64 0xFF) [0x68, 0x69]) = None
   \<and> length (payloadFrame [0x68, 0x69]) = 32 + length (textToUTF8Binary [0x68, 0x69])
   \<and> length (snd (encodeTextInImage (replicate 64 0xFF) [0x68, 0x69])) = length (replicate 64 (0xFF::u8))
   \<and> 47 < length (payloadFrame [0x68, 0x69])
   \<and> slot 47 < length (replicate 64 (0xFF::u8))
   \<and> (snd (encodeTextInImage (replicate 64 0xFF) [0x68, 0x69]) ! slot 47 AND 1 = 1)
       = payloadFrame [0x68, 0x69] ! 47
   \<and> slot (length (payloadFrame [0x68, 0x69]) - 1) < 63 \<and> (63::nat) < length (replicate 64 (0xFF::u8))
   \<and> snd (encodeTextInImage (replicate 64 0xFF) [0x68, 0x69]) ! 63 = replicate 64 (0xFF::u8) ! 63"
  using embed_touches_prefix_only [OF hi_embeds, of 47 63] hi_embeds
  by (simp add: length_payloadFrame hi_bits slot_def)

end
